theory Spec2Isabelle
  imports Main "HOL-Library.Word"
begin

unbundle bit_operations_syntax

section \<open>Data model\<close>

text \<open>
  The generated codec of \<^verbatim>\<open>header.proto\<close> and the packet pool of \<^verbatim>\<open>socket/packet.go\<close>.
  A Go \<^verbatim>\<open>byte\<close>, \<^verbatim>\<open>uint64\<close> and \<^verbatim>\<open>int32\<close> are words of that width (an \<^verbatim>\<open>int32\<close> is read
  with \<open>sint\<close>); a Go \<^verbatim>\<open>string\<close> and a \<^verbatim>\<open>[]byte\<close> are lists of bytes.
\<close>

type_synonym byte = "8 word"
type_synonym uint64 = "64 word"
type_synonym int32 = "32 word"

record Header =
  Seq :: uint64
  Type :: int32
  Uri :: "byte list"
  Gzip :: int32
  StatusCode :: int32
  Status :: "byte list"

text \<open>\<^verbatim>\<open>new(Header)\<close>: every field at its zero value.\<close>

definition zeroHeader :: Header where
  "zeroHeader = \<lparr>Seq = 0, Type = 0, Uri = [], Gzip = 0, StatusCode = 0, Status = []\<rparr>"

text \<open>\<^verbatim>\<open>func (m *Header) Reset()\<close>.\<close>

definition Reset_Header :: "Header \<Rightarrow> Header" where
  "Reset_Header m = m\<lparr>Seq := 0, Type := 0, Uri := [], Gzip := 0, StatusCode := 0, Status := []\<rparr>"

text \<open>
  What a call can end with other than its result: the two error variables of the file,
  \<^verbatim>\<open>io.ErrUnexpectedEOF\<close>, the four \<^verbatim>\<open>fmt.Errorf\<close> messages (with the values they print), and
  a run-time panic of Go (index or slice bounds out of range, \<^verbatim>\<open>make\<close> with a negative
  length, \<^verbatim>\<open>panic("unreachable")\<close>), kept as a value so that it is a branch of the model.
\<close>

datatype error =
    ErrInvalidLengthHeader
  | ErrIntOverflowHeader
  | ErrUnexpectedEOF
  | ErrEndGroup
  | ErrIllegalTag int32 uint64
  | ErrWrongWireType int string
  | ErrIllegalWireType int
  | Panic string

definition bindE :: "error + 'a \<Rightarrow> ('a \<Rightarrow> error + 'b) \<Rightarrow> error + 'b" where
  "bindE r f = (case r of Inl e \<Rightarrow> Inl e | Inr x \<Rightarrow> f x)"

section \<open>Go's int\<close>

text \<open>
  A Go \<^verbatim>\<open>int\<close> is 64 bits wide and its arithmetic wraps around silently. It is modelled
  as an \<open>int\<close>, with \<open>int64\<close> applied to every sum that can leave the range;
  \<^verbatim>\<open>len\<close> returns an \<^verbatim>\<open>int\<close>, so \<open>len\<close> wraps too (no Go slice or string is that
  long; for the lists of at most \<open>2 ^ 63 - 1\<close> elements that Go has, \<open>len\<close> is the length).
\<close>

definition int64 :: "int \<Rightarrow> int" where
  "int64 x = (x + 2 ^ 63) mod 2 ^ 64 - 2 ^ 63"

definition len :: "'a list \<Rightarrow> int" where
  "len xs = int64 (int (length xs))"

section \<open>Encoding\<close>

text \<open>
  \<^verbatim>\<open>encodeVarintHeader(dAtA, offset, v)\<close> writes into the buffer and returns the new offset.
  The model returns the buffer as well; a write past the end of the buffer is Go's
  index-out-of-range panic. Offsets of the encoder start at 0 and only grow past a
  successful write, so they are natural numbers.
\<close>

function encodeVarintHeader :: "byte list \<Rightarrow> nat \<Rightarrow> uint64 \<Rightarrow> error + byte list \<times> nat" where
  "encodeVarintHeader dAtA offset v =
     (if v \<ge> 128 then
        (if offset < length dAtA
         then encodeVarintHeader (dAtA[offset := ucast ((v AND 0x7f) OR 0x80)]) (offset + 1) (drop_bit 7 v)
         else Inl (Panic ''index out of range''))
      else if offset < length dAtA then Inr (dAtA[offset := ucast v], offset + 1)
      else Inl (Panic ''index out of range''))"
  by pat_completeness auto
termination
  by (relation "measure (\<lambda>(dAtA, offset, v). unat v)")
    (auto simp: drop_bit_eq_div unat_div word_le_nat_alt)

declare encodeVarintHeader.simps [simp del]

text \<open>\<^verbatim>\<open>sovHeader\<close>: the loop counts one byte, shifts, and stops at zero.\<close>

function sovHeader_loop :: "uint64 \<Rightarrow> int \<Rightarrow> int" where
  "sovHeader_loop x n =
     (let n = n + 1; x = drop_bit 7 x in
      if x = 0 then n else sovHeader_loop x n)"
  by pat_completeness auto
termination
proof (relation "measure (\<lambda>(x, n). unat x)", goal_cases)
  case 1
  show ?case by simp
next
  case (2 x n n' x')
  then have "x \<noteq> 0" by auto
  then have "0 < unat x" by (simp add: unat_gt_0)
  then show ?case using 2 by (simp add: drop_bit_eq_div unat_div)
qed

declare sovHeader_loop.simps [simp del]

definition sovHeader :: "uint64 \<Rightarrow> int" where
  "sovHeader x = sovHeader_loop x 0"

text \<open>
  \<^verbatim>\<open>Size\<close>. \<^verbatim>\<open>uint64(m.Type)\<close> of an \<^verbatim>\<open>int32\<close> extends the sign (\<open>scast\<close>);
  \<^verbatim>\<open>uint64(l)\<close> of an \<^verbatim>\<open>int\<close> is \<open>word_of_int\<close>.
\<close>

definition Size :: "Header \<Rightarrow> int" where
  "Size m =
     (let n = 0;
          n = (if Seq m \<noteq> 0 then int64 (n + (1 + sovHeader (Seq m))) else n);
          n = (if Type m \<noteq> 0 then int64 (n + (1 + sovHeader (scast (Type m)))) else n);
          l = len (Uri m);
          n = (if l > 0 then int64 (n + (1 + l + sovHeader (word_of_int l))) else n);
          n = (if Gzip m \<noteq> 0 then int64 (n + (1 + sovHeader (scast (Gzip m)))) else n);
          n = (if StatusCode m \<noteq> 0 then int64 (n + (1 + sovHeader (scast (StatusCode m)))) else n);
          l = len (Status m);
          n = (if l > 0 then int64 (n + (1 + l + sovHeader (word_of_int l))) else n)
      in n)"

text \<open>\<^verbatim>\<open>dAtA[i] = b\<close>.\<close>

definition putByte :: "byte list \<Rightarrow> nat \<Rightarrow> byte \<Rightarrow> error + byte list" where
  "putByte dAtA i b =
     (if i < length dAtA then Inr (dAtA[i := b]) else Inl (Panic ''index out of range''))"

text \<open>
  \<^verbatim>\<open>copy(dAtA[i:], s)\<close> copies as many bytes as fit and returns their number; slicing at
  \<open>i\<close> panics when \<open>i\<close> is past the end.
\<close>

definition copyAt :: "byte list \<Rightarrow> nat \<Rightarrow> byte list \<Rightarrow> error + byte list \<times> nat" where
  "copyAt dAtA i s =
     (if i > length dAtA then Inl (Panic ''slice bounds out of range'')
      else let n = min (length dAtA - i) (length s)
           in Inr (take i dAtA @ take n s @ drop (i + n) dAtA, n))"

text \<open>
  The two blocks \<^verbatim>\<open>MarshalTo\<close> repeats: a tag byte and a varint (fields 1, 2, 4, 5), and a
  tag byte, the length as a varint and the bytes (fields 3, 6).
\<close>

definition putVarintField :: "byte \<Rightarrow> uint64 \<Rightarrow> byte list \<times> nat \<Rightarrow> error + byte list \<times> nat" where
  "putVarintField tag v st =
     (case st of (dAtA, i) \<Rightarrow>
        bindE (putByte dAtA i tag) (\<lambda>dAtA.
        let i = i + 1 in encodeVarintHeader dAtA i v))"

definition putBytesField :: "byte \<Rightarrow> byte list \<Rightarrow> byte list \<times> nat \<Rightarrow> error + byte list \<times> nat" where
  "putBytesField tag s st =
     (case st of (dAtA, i) \<Rightarrow>
        bindE (putByte dAtA i tag) (\<lambda>dAtA.
        let i = i + 1 in
        bindE (encodeVarintHeader dAtA i (word_of_int (len s))) (\<lambda>(dAtA, i).
        bindE (copyAt dAtA i s) (\<lambda>(dAtA, n). Inr (dAtA, i + n)))))"

definition MarshalTo :: "Header \<Rightarrow> byte list \<Rightarrow> error + byte list \<times> nat" where
  "MarshalTo m dAtA =
     bindE (if Seq m \<noteq> 0 then putVarintField 0x8 (Seq m) (dAtA, 0) else Inr (dAtA, 0)) (\<lambda>st.
     bindE (if Type m \<noteq> 0 then putVarintField 0x10 (scast (Type m)) st else Inr st) (\<lambda>st.
     bindE (if len (Uri m) > 0 then putBytesField 0x1a (Uri m) st else Inr st) (\<lambda>st.
     bindE (if Gzip m \<noteq> 0 then putVarintField 0x20 (scast (Gzip m)) st else Inr st) (\<lambda>st.
     bindE (if StatusCode m \<noteq> 0 then putVarintField 0x28 (scast (StatusCode m)) st else Inr st) (\<lambda>st.
     bindE (if len (Status m) > 0 then putBytesField 0x32 (Status m) st else Inr st) (\<lambda>st.
     Inr st))))))"

text \<open>
  \<^verbatim>\<open>Marshal\<close>: a buffer of \<^verbatim>\<open>Size()\<close> zero bytes (\<^verbatim>\<open>make\<close> panics on a negative length),
  filled by \<^verbatim>\<open>MarshalTo\<close> and cut at the offset it returns.
\<close>

definition Marshal :: "Header \<Rightarrow> error + byte list" where
  "Marshal m =
     (let size = Size m in
      if size < 0 then Inl (Panic ''makeslice: len out of range'')
      else bindE (MarshalTo m (replicate (nat size) 0)) (\<lambda>(dAtA, n). Inr (take n dAtA)))"

section \<open>Decoding\<close>

text \<open>
  The varint loop that \<^verbatim>\<open>Unmarshal\<close> and \<^verbatim>\<open>skipHeader\<close> repeat in line: from \<open>iNdEx\<close>,
  with the shift and the accumulator so far. The accumulator is a \<^verbatim>\<open>uint64\<close>, an
  \<^verbatim>\<open>int32\<close> or an \<^verbatim>\<open>int\<close> in the source, hence a word of any width here; a shift by the
  width or more gives 0 in Go and with \<open>push_bit\<close>. Reading \<^verbatim>\<open>dAtA[iNdEx]\<close> at a negative
  index panics.
\<close>

function readVarint :: "byte list \<Rightarrow> int \<Rightarrow> nat \<Rightarrow> 'a::len word \<Rightarrow> error + 'a word \<times> int" where
  "readVarint dAtA iNdEx shift acc =
     (if shift \<ge> 64 then Inl ErrIntOverflowHeader
      else if iNdEx \<ge> len dAtA then Inl ErrUnexpectedEOF
      else if iNdEx < 0 then Inl (Panic ''index out of range'')
      else let b = dAtA ! nat iNdEx;
               iNdEx = iNdEx + 1;
               acc = acc OR push_bit shift (ucast b AND 0x7F)
           in if b < 0x80 then Inr (acc, iNdEx)
              else readVarint dAtA iNdEx (shift + 7) acc)"
  by pat_completeness auto
termination
  by (relation "measure (\<lambda>(dAtA, iNdEx, shift, acc). 64 - shift)") auto

declare readVarint.simps [simp del]

text \<open>The loop of \<^verbatim>\<open>skipHeader\<close>'s case 0, which keeps no value.\<close>

function skipVarint :: "byte list \<Rightarrow> int \<Rightarrow> nat \<Rightarrow> error + int" where
  "skipVarint dAtA iNdEx shift =
     (if shift \<ge> 64 then Inl ErrIntOverflowHeader
      else if iNdEx \<ge> len dAtA then Inl ErrUnexpectedEOF
      else let iNdEx = iNdEx + 1 in
        if iNdEx - 1 < 0 then Inl (Panic ''index out of range'')
        else if dAtA ! nat (iNdEx - 1) < 0x80 then Inr iNdEx
        else skipVarint dAtA iNdEx (shift + 7))"
  by pat_completeness auto
termination
  by (relation "measure (\<lambda>(dAtA, iNdEx, shift). 64 - shift)") auto

declare skipVarint.simps [simp del]

text \<open>
  \<^verbatim>\<open>skipHeader\<close>. Every branch of the body of its \<^verbatim>\<open>for iNdEx < l\<close> returns, so the loop
  is an \<open>if\<close>, and an empty slice reaches \<^verbatim>\<open>panic("unreachable")\<close>. \<open>skipGroup\<close> is the
  \<^verbatim>\<open>for { ... }\<close> of case 3, from the index it has reached.
\<close>

function skipHeader :: "byte list \<Rightarrow> error + int"
  and skipGroup :: "byte list \<Rightarrow> int \<Rightarrow> error + int" where
  "skipHeader dAtA =
     (let l = len dAtA; iNdEx = 0 in
      if iNdEx < l then
        (case readVarint dAtA iNdEx 0 (0::uint64) of
           Inl e \<Rightarrow> Inl e
         | Inr (wire, iNdEx) \<Rightarrow>
             let wireType = uint (wire AND 0x7) in
             if wireType = 0 then skipVarint dAtA iNdEx 0
             else if wireType = 1 then Inr (int64 (iNdEx + 8))
             else if wireType = 2 then
               (case readVarint dAtA iNdEx 0 (0::uint64) of
                  Inl e \<Rightarrow> Inl e
                | Inr (length', iNdEx) \<Rightarrow>
                    let iNdEx = int64 (iNdEx + sint length') in
                    if sint length' < 0 then Inl ErrInvalidLengthHeader
                    else Inr iNdEx)
             else if wireType = 3 then skipGroup dAtA iNdEx
             else if wireType = 4 then Inr iNdEx
             else if wireType = 5 then Inr (int64 (iNdEx + 4))
             else Inl (ErrIllegalWireType wireType))
      else Inl (Panic ''unreachable''))"
| "skipGroup dAtA iNdEx =
     (let start = iNdEx in
      case readVarint dAtA iNdEx 0 (0::uint64) of
        Inl e \<Rightarrow> Inl e
      | Inr (innerWire, iNdEx) \<Rightarrow>
          let innerWireType = uint (innerWire AND 0x7) in
          if innerWireType = 4 then Inr iNdEx
          else (case skipHeader (drop (nat start) dAtA) of
                  Inl e \<Rightarrow> Inl e
                | Inr next \<Rightarrow> skipGroup dAtA (int64 (start + next))))"
  by pat_completeness auto

text \<open>
  The recursion is nested: the group loop continues from an index that the inner call
  returns. Termination needs what a successful call returns: an index past the tag, or a
  negative number after a wrap-around, so that the group loop moves forward or stops at
  the next read.
\<close>

lemma int64_id: "- (2 ^ 63) \<le> x \<Longrightarrow> x < 2 ^ 63 \<Longrightarrow> int64 x = x"
  by (simp add: int64_def)

lemma int64_lower: "- (2 ^ 63) \<le> int64 x"
  by (simp add: int64_def)

lemma int64_upper: "int64 x < 2 ^ 63"
proof -
  have "(x + 2 ^ 63) mod 2 ^ 64 < (2 ^ 64 :: int)" by simp
  then show ?thesis by (simp add: int64_def)
qed

lemma int64_wrap: "2 ^ 63 \<le> x \<Longrightarrow> x < 2 ^ 64 \<Longrightarrow> int64 x = x - 2 ^ 64"
proof -
  assume a: "2 ^ 63 \<le> x" "x < 2 ^ 64"
  have "(x + 2 ^ 63) mod 2 ^ 64 = (x + 2 ^ 63 - 2 ^ 64) mod 2 ^ 64"
    by (metis mod_diff_right_eq mod_self diff_zero)
  also have "\<dots> = x + 2 ^ 63 - 2 ^ 64"
    using a by (intro mod_pos_pos_trivial) simp_all
  finally show ?thesis by (simp add: int64_def)
qed

lemma int64_cong_diff: "int64 (x - y) = int64 (int64 x - y)"
  by (simp add: int64_def mod_diff_left_eq algebra_simps)

lemma len_upper: "len d < 2 ^ 63"
  unfolding len_def by (rule int64_upper)

lemma len_lower: "- (2 ^ 63) \<le> len d"
  unfolding len_def by (rule int64_lower)

lemma len_le: "len d \<le> int (length d)"
proof -
  have "(int (length d) + 2 ^ 63) mod 2 ^ 64 \<le> int (length d) + 2 ^ 63"
    by (rule zmod_le_nonneg_dividend) simp
  then show ?thesis by (simp add: len_def int64_def)
qed

lemma len_eq: "length d < 2 ^ 63 \<Longrightarrow> len d = int (length d)"
  unfolding len_def by (rule int64_id) (simp_all add: order_trans [of _ 0])

lemma len_drop:
  assumes "0 \<le> i" "i \<le> len d"
  shows "len (drop (nat i) d) = len d - i"
proof -
  have le: "nat i \<le> length d" using assms len_le [of d] by linarith
  have "len (drop (nat i) d) = int64 (int (length d) - i)"
    using assms le by (simp add: len_def of_nat_diff)
  also have "\<dots> = int64 (len d - i)"
    unfolding len_def by (rule int64_cong_diff)
  also have "\<dots> = len d - i"
    using assms len_upper [of d] by (intro int64_id) simp_all
  finally show ?thesis .
qed

lemma readVarint_bounds:
  "readVarint d i s a = Inr (v, i') \<Longrightarrow> 0 \<le> i \<and> i < i' \<and> i' \<le> len d"
proof (induction d i s a rule: readVarint.induct)
  case (1 dAtA iNdEx shift acc)
  show ?case
  proof (cases "dAtA ! nat iNdEx < 0x80")
    case True
    with "1.prems" show ?thesis
      by (subst (asm) readVarint.simps) (auto simp: Let_def split: if_splits)
  next
    case False
    from "1.prems" have c: "\<not> 64 \<le> shift" "\<not> len dAtA \<le> iNdEx" "\<not> iNdEx < 0"
      by (subst (asm) readVarint.simps, simp split: if_splits)+
    from "1.prems" False c
    have "readVarint dAtA (iNdEx + 1) (shift + 7) (acc OR push_bit shift (ucast (dAtA ! nat iNdEx) AND 0x7F)) = Inr (v, i')"
      by (subst (asm) readVarint.simps) (simp add: Let_def)
    from "1.IH" [OF c refl refl refl False this] c show ?thesis by simp
  qed
qed

lemma skipVarint_bounds:
  "skipVarint d i s = Inr i' \<Longrightarrow> 0 \<le> i \<and> i < i' \<and> i' \<le> len d"
proof (induction d i s rule: skipVarint.induct)
  case (1 dAtA iNdEx shift)
  show ?case
  proof (cases "dAtA ! nat iNdEx < 0x80")
    case True
    with "1.prems" show ?thesis
      by (subst (asm) skipVarint.simps) (auto simp: Let_def split: if_splits)
  next
    case False
    from "1.prems" have c: "\<not> 64 \<le> shift" "\<not> len dAtA \<le> iNdEx" "\<not> iNdEx + 1 - 1 < 0"
      by (subst (asm) skipVarint.simps, simp add: Let_def split: if_splits)+
    from "1.prems" False c
    have "skipVarint dAtA (iNdEx + 1) (shift + 7) = Inr i'"
      by (subst (asm) skipVarint.simps) (simp add: Let_def)
    from "1.IH" [OF c(1,2) refl c(3) _ this] False c show ?thesis by simp
  qed
qed


lemma int64_add_pos:
  assumes "0 \<le> a" "a < 2 ^ 63" "1 \<le> b" "b < 2 ^ 63"
  shows "int64 (a + b) < 0 \<or> a < int64 (a + b)"
proof (cases "a + b < 2 ^ 63")
  case True
  then have "int64 (a + b) = a + b" using assms by (intro int64_id) simp_all
  then show ?thesis using assms by simp
next
  case False
  then have "int64 (a + b) = a + b - 2 ^ 64" using assms by (intro int64_wrap) simp_all
  then show ?thesis using assms by simp
qed

lemma skip_result_dom:
  "skipHeader_skipGroup_dom (Inl d) \<Longrightarrow> skipHeader d = Inr n \<Longrightarrow>
     (1 \<le> n \<and> n < 2 ^ 63) \<or> (- (2 ^ 63) \<le> n \<and> n \<le> len d - 2 ^ 63 - 1)"
  "skipHeader_skipGroup_dom (Inr (d, i)) \<Longrightarrow> skipGroup d i = Inr n \<Longrightarrow> 1 \<le> n \<and> n \<le> len d"
proof (induction d and d i arbitrary: n and n rule: skipHeader_skipGroup.pinduct)
  case (1 dAtA)
  note E = skipHeader.psimps [OF "1.hyps"]
  have pos: "0 < len dAtA"
  proof (rule ccontr)
    assume "\<not> 0 < len dAtA"
    then have "skipHeader dAtA = Inl (Panic ''unreachable'')" by (subst E) simp
    with "1.prems" show False by simp
  qed
  obtain wire i1 where rv: "readVarint dAtA 0 0 (0::uint64) = Inr (wire, i1)"
  proof (cases "readVarint dAtA 0 0 (0::uint64)")
    case (Inl e)
    then have "skipHeader dAtA = Inl e" using pos by (subst E) simp
    with "1.prems" show ?thesis by simp
  next
    case (Inr p)
    then show ?thesis using that by (cases p) simp
  qed
  from readVarint_bounds [OF rv] have b1: "1 \<le> i1" "i1 \<le> len dAtA" by simp_all
  have up: "len dAtA < 2 ^ 63" by (rule len_upper)
  have wrapcase: "(1 \<le> int64 (k + x) \<and> int64 (k + x) < 2 ^ 63) \<or>
      (- (2 ^ 63) \<le> int64 (k + x) \<and> int64 (k + x) \<le> len dAtA - 2 ^ 63 - 1)"
    if "1 \<le> k" "k \<le> len dAtA" "0 \<le> x" "x < 2 ^ 63" for k x
  proof (cases "k + x < 2 ^ 63")
    case True
    then have "int64 (k + x) = k + x" using that by (intro int64_id) simp_all
    then show ?thesis using that True by simp
  next
    case False
    then have "int64 (k + x) = k + x - 2 ^ 64" using that up by (intro int64_wrap) simp_all
    then show ?thesis using that False up by simp
  qed
  consider (w0) "uint (wire AND 7) = 0" | (w1) "uint (wire AND 7) = 1" | (w2) "uint (wire AND 7) = 2"
    | (w3) "uint (wire AND 7) = 3" | (w4) "uint (wire AND 7) = 4" | (w5) "uint (wire AND 7) = 5"
    | (other) "uint (wire AND 7) \<noteq> 0" "uint (wire AND 7) \<noteq> 1" "uint (wire AND 7) \<noteq> 2"
        "uint (wire AND 7) \<noteq> 3" "uint (wire AND 7) \<noteq> 4" "uint (wire AND 7) \<noteq> 5" by blast
  then show ?case
  proof cases
    case w0
    have "skipHeader dAtA = skipVarint dAtA i1 0" using pos rv w0 by (subst E) simp
    with "1.prems" have "skipVarint dAtA i1 0 = Inr n" by simp
    from skipVarint_bounds [OF this] b1 up show ?thesis by simp
  next
    case w1
    have "skipHeader dAtA = Inr (int64 (i1 + 8))" using pos rv w1 by (subst E) simp
    with "1.prems" have "n = int64 (i1 + 8)" by simp
    with wrapcase [of i1 8] b1 show ?thesis by simp
  next
    case w2
    have E2: "skipHeader dAtA = (case readVarint dAtA i1 0 (0::uint64) of
                  Inl e \<Rightarrow> Inl e
                | Inr (length', iNdEx) \<Rightarrow>
                    let iNdEx = int64 (iNdEx + sint length') in
                    if sint length' < 0 then Inl ErrInvalidLengthHeader
                    else Inr iNdEx)"
      using pos rv w2 by (subst E) simp
    from "1.prems" obtain l' i2 where
      rl: "readVarint dAtA i1 0 (0::uint64) = Inr (l', i2)" and
      n: "n = int64 (i2 + sint l')" and nn: "0 \<le> sint l'"
      unfolding E2 by (auto simp: Let_def split: sum.splits prod.splits if_splits)
    from readVarint_bounds [OF rl] b1 have "1 \<le> i2" "i2 \<le> len dAtA" by simp_all
    moreover have "sint l' < 2 ^ 63" using sint_lt [of l'] by simp
    ultimately show ?thesis using wrapcase [of i2 "sint l'"] nn n by simp
  next
    case w3
    have "skipHeader dAtA = skipGroup dAtA i1" using pos rv w3 by (subst E) simp
    with "1.prems" have g: "skipGroup dAtA i1 = Inr n" by simp
    have "1 \<le> n \<and> n \<le> len dAtA"
      by (rule "1.IH" [OF refl refl _ rv refl refl _ _ _ w3 g]) (use pos w3 in simp_all)
    then show ?thesis using up by simp
  next
    case w4
    have "skipHeader dAtA = Inr i1" using pos rv w4 by (subst E) simp
    with "1.prems" have "n = i1" by simp
    then show ?thesis using b1 up by simp
  next
    case w5
    have "skipHeader dAtA = Inr (int64 (i1 + 4))" using pos rv w5 by (subst E) simp
    with "1.prems" have "n = int64 (i1 + 4)" by simp
    with wrapcase [of i1 4] b1 show ?thesis by simp
  next
    case other
    have "skipHeader dAtA = Inl (ErrIllegalWireType (uint (wire AND 7)))"
      using pos rv other by (subst E) simp
    with "1.prems" show ?thesis by simp
  qed
next
  case (2 dAtA iNdEx)
  note E = skipGroup.psimps [OF "2.hyps"]
  obtain innerWire i1 where rv: "readVarint dAtA iNdEx 0 (0::uint64) = Inr (innerWire, i1)"
  proof (cases "readVarint dAtA iNdEx 0 (0::uint64)")
    case (Inl e)
    then have "skipGroup dAtA iNdEx = Inl e" by (subst E) simp
    with "2.prems" show ?thesis by simp
  next
    case (Inr p)
    then show ?thesis using that by (cases p) simp
  qed
  from readVarint_bounds [OF rv] have b1: "0 \<le> iNdEx" "iNdEx < i1" "i1 \<le> len dAtA" by simp_all
  show ?case
  proof (cases "uint (innerWire AND 7) = 4")
    case True
    have "skipGroup dAtA iNdEx = Inr i1" using rv True by (subst E) simp
    with "2.prems" have "n = i1" by simp
    then show ?thesis using b1 by simp
  next
    case False
    have E2: "skipGroup dAtA iNdEx = (case skipHeader (drop (nat iNdEx) dAtA) of
                  Inl e \<Rightarrow> Inl e
                | Inr next \<Rightarrow> skipGroup dAtA (int64 (iNdEx + next)))"
      using rv False by (subst E) simp
    from "2.prems" obtain nxt where
      sk: "skipHeader (drop (nat iNdEx) dAtA) = Inr nxt" and
      g: "skipGroup dAtA (int64 (iNdEx + nxt)) = Inr n"
      unfolding E2 by (auto split: sum.splits)
    show ?thesis
      by (rule "2.IH"(2) [OF refl rv refl refl False sk g])
  qed
qed

lemma skipHeader_total: "All skipHeader_skipGroup_dom"
proof (relation "measure (\<lambda>x. case x of Inl d \<Rightarrow> 2 * nat (len d) | Inr (d, i) \<Rightarrow> (if 0 \<le> i \<and> i < len d then 2 * nat (len d - i) + 1 else 0))", goal_cases)
  case 1
  show ?case by simp
next
  case (2 dAtA l i0 b wire iNdEx wt)
  then have "readVarint dAtA 0 0 (0::uint64) = Inr (wire, iNdEx)" by simp
  from readVarint_bounds [OF this] 2 show ?case by auto
next
  case (3 dAtA iNdEx start b innerWire i1 wt)
  then have "readVarint dAtA iNdEx 0 (0::uint64) = Inr (innerWire, i1)" by simp
  from readVarint_bounds [OF this] have b1: "0 \<le> iNdEx" "iNdEx < len dAtA" by simp_all
  then have "len (drop (nat iNdEx) dAtA) = len dAtA - iNdEx" by (intro len_drop) simp_all
  with 3 b1 show ?case by simp
next
  case (4 dAtA iNdEx start b innerWire i1 wt nxt)
  then have "readVarint dAtA iNdEx 0 (0::uint64) = Inr (innerWire, i1)" by simp
  from readVarint_bounds [OF this] have b1: "0 \<le> iNdEx" "iNdEx < len dAtA" by simp_all
  then have ld: "len (drop (nat iNdEx) dAtA) = len dAtA - iNdEx" by (intro len_drop) simp_all
  from 4 have sk: "skipHeader (drop (nat iNdEx) dAtA) = Inr nxt"
    and dom: "skipHeader_skipGroup_dom (Inl (drop (nat iNdEx) dAtA))" by simp_all
  have up: "len dAtA < 2 ^ 63" by (rule len_upper)
  from skip_result_dom(1) [OF dom sk] ld
  consider (pos) "1 \<le> nxt" "nxt < 2 ^ 63" | (neg) "- (2 ^ 63) \<le> nxt" "nxt \<le> len dAtA - iNdEx - 2 ^ 63 - 1"
    by auto
  then have "int64 (iNdEx + nxt) < 0 \<or> iNdEx < int64 (iNdEx + nxt)"
  proof cases
    case pos
    then show ?thesis using b1 up by (intro int64_add_pos) simp_all
  next
    case neg
    then have "int64 (iNdEx + nxt) = iNdEx + nxt" using b1 up by (intro int64_id) simp_all
    then show ?thesis using neg up by simp
  qed
  with 4 b1 show ?case by auto
qed

termination skipHeader
  by (rule skipHeader_total)

declare skipHeader.simps [simp del] skipGroup.simps [simp del]

lemma skipHeader_result:
  "skipHeader d = Inr n \<Longrightarrow>
     (1 \<le> n \<and> n < 2 ^ 63) \<or> (- (2 ^ 63) \<le> n \<and> n \<le> len d - 2 ^ 63 - 1)"
  using skip_result_dom(1) skipHeader_total by blast

lemma skipGroup_result: "skipGroup d i = Inr n \<Longrightarrow> 1 \<le> n \<and> n \<le> len d"
  using skip_result_dom(2) skipHeader_total by blast

text \<open>
  The block of fields 3 and 6: the length as a varint, then the bytes
  \<^verbatim>\<open>dAtA[iNdEx:postIndex]\<close>; the slice expression panics when \<open>postIndex\<close> has wrapped
  around below \<open>iNdEx\<close>.
\<close>

definition readString :: "byte list \<Rightarrow> int \<Rightarrow> error + byte list \<times> int" where
  "readString dAtA iNdEx =
     (case readVarint dAtA iNdEx 0 (0::uint64) of
        Inl e \<Rightarrow> Inl e
      | Inr (stringLen, iNdEx) \<Rightarrow>
          let intStringLen = sint stringLen in
          if intStringLen < 0 then Inl ErrInvalidLengthHeader
          else let postIndex = int64 (iNdEx + intStringLen) in
            if postIndex > len dAtA then Inl ErrUnexpectedEOF
            else if postIndex < iNdEx then Inl (Panic ''slice bounds out of range'')
            else Inr (take (nat (postIndex - iNdEx)) (drop (nat iNdEx) dAtA), postIndex))"

text \<open>
  One turn of the loop of \<^verbatim>\<open>Unmarshal\<close>: the tag, then the field. It returns the header
  and the index for the next turn. (On an error the source leaves the fields it has
  assigned so far in the receiver; the model returns the error alone.)
\<close>

definition Unmarshal_field :: "byte list \<Rightarrow> Header \<Rightarrow> int \<Rightarrow> error + Header \<times> int" where
  "Unmarshal_field dAtA m iNdEx =
     (let preIndex = iNdEx in
      case readVarint dAtA iNdEx 0 (0::uint64) of
        Inl e \<Rightarrow> Inl e
      | Inr (wire, iNdEx) \<Rightarrow>
          let fieldNum = (ucast (drop_bit 3 wire) :: int32);
              wireType = uint (wire AND 0x7) in
          if wireType = 4 then Inl ErrEndGroup
          else if sint fieldNum \<le> 0 then Inl (ErrIllegalTag fieldNum wire)
          else if fieldNum = 1 then
            (if wireType \<noteq> 0 then Inl (ErrWrongWireType wireType ''Seq'')
             else case readVarint dAtA iNdEx 0 (0::uint64) of
                    Inl e \<Rightarrow> Inl e
                  | Inr (v, iNdEx) \<Rightarrow> Inr (m\<lparr>Seq := v\<rparr>, iNdEx))
          else if fieldNum = 2 then
            (if wireType \<noteq> 0 then Inl (ErrWrongWireType wireType ''Type'')
             else case readVarint dAtA iNdEx 0 (0::int32) of
                    Inl e \<Rightarrow> Inl e
                  | Inr (v, iNdEx) \<Rightarrow> Inr (m\<lparr>Type := v\<rparr>, iNdEx))
          else if fieldNum = 3 then
            (if wireType \<noteq> 2 then Inl (ErrWrongWireType wireType ''Uri'')
             else case readString dAtA iNdEx of
                    Inl e \<Rightarrow> Inl e
                  | Inr (s, iNdEx) \<Rightarrow> Inr (m\<lparr>Uri := s\<rparr>, iNdEx))
          else if fieldNum = 4 then
            (if wireType \<noteq> 0 then Inl (ErrWrongWireType wireType ''Gzip'')
             else case readVarint dAtA iNdEx 0 (0::int32) of
                    Inl e \<Rightarrow> Inl e
                  | Inr (v, iNdEx) \<Rightarrow> Inr (m\<lparr>Gzip := v\<rparr>, iNdEx))
          else if fieldNum = 5 then
            (if wireType \<noteq> 0 then Inl (ErrWrongWireType wireType ''StatusCode'')
             else case readVarint dAtA iNdEx 0 (0::int32) of
                    Inl e \<Rightarrow> Inl e
                  | Inr (v, iNdEx) \<Rightarrow> Inr (m\<lparr>StatusCode := v\<rparr>, iNdEx))
          else if fieldNum = 6 then
            (if wireType \<noteq> 2 then Inl (ErrWrongWireType wireType ''Status'')
             else case readString dAtA iNdEx of
                    Inl e \<Rightarrow> Inl e
                  | Inr (s, iNdEx) \<Rightarrow> Inr (m\<lparr>Status := s\<rparr>, iNdEx))
          else
            (let iNdEx = preIndex in
             case skipHeader (drop (nat iNdEx) dAtA) of
               Inl e \<Rightarrow> Inl e
             | Inr skippy \<Rightarrow>
                 if skippy < 0 then Inl ErrInvalidLengthHeader
                 else if int64 (iNdEx + skippy) > len dAtA then Inl ErrUnexpectedEOF
                 else Inr (m, int64 (iNdEx + skippy))))"

lemma readString_bounds:
  "readString d i = Inr (s, i') \<Longrightarrow> 0 \<le> i \<and> i < i' \<and> i' \<le> len d"
  unfolding readString_def
  by (auto simp: Let_def split: sum.splits prod.splits if_splits dest!: readVarint_bounds)

lemma readVarint_case_bounds:
  "(case readVarint d i 0 (0::'a::len word) of Inl e \<Rightarrow> Inl e
     | Inr (v, j) \<Rightarrow> Inr (f v, j)) = Inr (m', i') \<Longrightarrow> i < i'"
  by (auto split: sum.splits prod.splits dest!: readVarint_bounds)

lemma Unmarshal_field_progress:
  assumes "Unmarshal_field d m i = Inr (m', i')"
  shows "0 \<le> i \<and> i < len d \<and> (i' < 0 \<or> i < i')"
proof -
  from assms obtain wire i1 where rv: "readVarint d i 0 (0::uint64) = Inr (wire, i1)"
    unfolding Unmarshal_field_def by (cases "readVarint d i 0 (0::uint64)") auto
  from readVarint_bounds [OF rv] have b: "0 \<le> i" "i < i1" "i1 \<le> len d" by simp_all
  define fn where "fn = (ucast (drop_bit 3 wire) :: int32)"
  define wt where "wt = uint (wire AND 0x7)"
  note U = Unmarshal_field_def [of d m i, unfolded Let_def rv sum.case prod.case,
      folded fn_def wt_def]
  have keeps: "i < i'"
    if "(case readString d i1 of Inl e \<Rightarrow> Inl e
         | Inr (v, j) \<Rightarrow> Inr (f v, j)) = Inr (m', i')" for f :: "byte list \<Rightarrow> Header"
    using that b by (auto split: sum.splits prod.splits dest!: readString_bounds)
  have skip: "i' < 0 \<or> i < i'"
    if "(case skipHeader (drop (nat i) d) of Inl e \<Rightarrow> Inl e
         | Inr skippy \<Rightarrow>
             if skippy < 0 then Inl ErrInvalidLengthHeader
             else if int64 (i + skippy) > len d then Inl ErrUnexpectedEOF
             else Inr (m, int64 (i + skippy))) = Inr (m', i')"
  proof -
    from that obtain skippy where sk: "skipHeader (drop (nat i) d) = Inr skippy"
      and nn: "0 \<le> skippy" and i': "i' = int64 (i + skippy)"
      by (auto split: sum.splits if_splits)
    from skipHeader_result [OF sk] nn len_upper [of "drop (nat i) d"]
    have "1 \<le> skippy" "skippy < 2 ^ 63" by auto
    then show ?thesis using b len_upper [of d] i' int64_add_pos [of i skippy] by simp
  qed
  have ok: "\<not> wt = 4" "\<not> sint fn \<le> 0"
    using assms unfolding U by (auto split: if_splits)
  consider (f1) "fn = 1" | (f2) "fn = 2" | (f3) "fn = 3" | (f4) "fn = 4" | (f5) "fn = 5"
    | (f6) "fn = 6"
    | (other) "fn \<noteq> 1" "fn \<noteq> 2" "fn \<noteq> 3" "fn \<noteq> 4" "fn \<noteq> 5" "fn \<noteq> 6" by blast
  then have "i' < 0 \<or> i < i'"
  proof cases
    case f1
    with assms ok b show ?thesis unfolding U by (cases "wt = 0") (auto dest!: readVarint_case_bounds)
  next
    case f2
    with assms ok b show ?thesis unfolding U by (cases "wt = 0") (auto dest!: readVarint_case_bounds)
  next
    case f3
    with assms ok b show ?thesis unfolding U by (cases "wt = 2") (auto dest!: keeps)
  next
    case f4
    with assms ok b show ?thesis unfolding U by (cases "wt = 0") (auto dest!: readVarint_case_bounds)
  next
    case f5
    with assms ok b show ?thesis unfolding U by (cases "wt = 0") (auto dest!: readVarint_case_bounds)
  next
    case f6
    with assms ok b show ?thesis unfolding U by (cases "wt = 2") (auto dest!: keeps)
  next
    case other
    with assms ok have "(case skipHeader (drop (nat i) d) of Inl e \<Rightarrow> Inl e
         | Inr skippy \<Rightarrow>
             if skippy < 0 then Inl ErrInvalidLengthHeader
             else if int64 (i + skippy) > len d then Inl ErrUnexpectedEOF
             else Inr (m, int64 (i + skippy))) = Inr (m', i')"
      unfolding U by simp
    then show ?thesis by (rule skip)
  qed
  with b show ?thesis by simp
qed

function Unmarshal_loop :: "byte list \<Rightarrow> Header \<Rightarrow> int \<Rightarrow> error + Header" where
  "Unmarshal_loop dAtA m iNdEx =
     (let l = len dAtA in
      if iNdEx < l then
        (case Unmarshal_field dAtA m iNdEx of
           Inl e \<Rightarrow> Inl e
         | Inr (m, iNdEx) \<Rightarrow> Unmarshal_loop dAtA m iNdEx)
      else if iNdEx > l then Inl ErrUnexpectedEOF
      else Inr m)"
  by pat_completeness auto
termination
proof (relation "measure (\<lambda>(d, m, i). if 0 \<le> i \<and> i < len d then nat (len d - i) else 0)", goal_cases)
  case 1
  show ?case by simp
next
  case (2 dAtA m iNdEx l r m' i')
  then have "Unmarshal_field dAtA m iNdEx = Inr (m', i')" by simp
  from Unmarshal_field_progress [OF this] 2 show ?case by auto
qed

declare Unmarshal_loop.simps [simp del]

definition Unmarshal :: "Header \<Rightarrow> byte list \<Rightarrow> error + Header" where
  "Unmarshal m dAtA = Unmarshal_loop dAtA m 0"

section \<open>The bytes of a header\<close>

text \<open>The bytes of a varint: what \<^verbatim>\<open>encodeVarintHeader\<close> writes, as a list.\<close>

function varint :: "uint64 \<Rightarrow> byte list" where
  "varint v =
     (if v \<ge> 128 then ucast ((v AND 0x7f) OR 0x80) # varint (drop_bit 7 v) else [ucast v])"
  by pat_completeness auto
termination
  by (relation "measure unat") (auto simp: drop_bit_eq_div unat_div word_le_nat_alt)

declare varint.simps [simp del]

lemma varint_small: "\<not> 128 \<le> v \<Longrightarrow> varint v = [ucast v]"
  by (subst varint.simps) simp

lemma varint_big:
  "128 \<le> v \<Longrightarrow> varint v = ucast ((v AND 0x7f) OR 0x80) # varint (drop_bit 7 v)"
  by (subst varint.simps) simp

lemma varint_nonempty: "varint v \<noteq> []"
  by (subst varint.simps) simp

lemma length_varint_pos: "0 < length (varint v)"
  using varint_nonempty by blast

lemma encodeVarintHeader_writes:
  "offset + length (varint v) \<le> length dAtA \<Longrightarrow>
   encodeVarintHeader dAtA offset v =
     Inr (take offset dAtA @ varint v @ drop (offset + length (varint v)) dAtA,
          offset + length (varint v))"
proof (induction dAtA offset v rule: encodeVarintHeader.induct)
  case (1 dAtA offset v)
  from "1.prems" length_varint_pos [of v] have lt: "offset < length dAtA" by linarith
  show ?case
  proof (cases "128 \<le> v")
    case True
    let ?x = "ucast ((v AND 0x7f) OR 0x80) :: byte"
    let ?n = "length (varint (drop_bit 7 v))"
    from "1.prems" have le: "offset + 1 + ?n \<le> length (dAtA[offset := ?x])"
      by (simp add: varint_big [OF True])
    have t: "take (offset + 1) (dAtA[offset := ?x]) = take offset dAtA @ [?x]"
      using lt by (simp add: take_Suc_conv_app_nth)
    have d: "drop (offset + 1 + ?n) (dAtA[offset := ?x]) = drop (offset + 1 + ?n) dAtA"
      by (simp add: drop_update_cancel)
    have "encodeVarintHeader dAtA offset v =
        encodeVarintHeader (dAtA[offset := ?x]) (offset + 1) (drop_bit 7 v)"
      by (subst encodeVarintHeader.simps) (simp add: True lt)
    also note "1.IH" [OF True lt le]
    finally show ?thesis
      unfolding t d by (simp add: varint_big [OF True])
  next
    case False
    have "dAtA[offset := ucast v] = take offset dAtA @ [ucast v] @ drop (offset + 1) dAtA"
      using lt by (simp add: upd_conv_take_nth_drop)
    then show ?thesis
      by (subst encodeVarintHeader.simps) (simp add: False lt varint_small [OF False])
  qed
qed

lemma drop7_zero_iff: "drop_bit 7 (x::uint64) = 0 \<longleftrightarrow> \<not> 128 \<le> x"
proof -
  have "unat (drop_bit 7 x) = unat x div 128" by (simp add: drop_bit_eq_div unat_div)
  then have "unat (drop_bit 7 x) = 0 \<longleftrightarrow> unat x < 128" by (simp add: div_eq_0_iff)
  then show ?thesis by (simp add: unat_eq_zero word_le_nat_alt not_le)
qed

lemma sovHeader_loop_eq: "sovHeader_loop x n = n + int (length (varint x))"
proof (induction x n rule: sovHeader_loop.induct)
  case (1 x n)
  show ?case
  proof (cases "128 \<le> x")
    case True
    then have nz: "drop_bit 7 x \<noteq> 0" by (simp add: drop7_zero_iff)
    show ?thesis
      by (subst sovHeader_loop.simps)
        (simp add: Let_def nz "1.IH" [OF refl refl nz] varint_big [OF True])
  next
    case False
    then have "drop_bit 7 x = 0" by (simp add: drop7_zero_iff)
    then show ?thesis
      by (subst sovHeader_loop.simps) (simp add: Let_def varint_small [OF False])
  qed
qed

lemma sovHeader_eq: "sovHeader x = int (length (varint x))"
  by (simp add: sovHeader_def sovHeader_loop_eq)

lemma length_varint_le: "length (varint v) \<le> 10"
proof -
  have "unat v < 2 ^ (7 * k) \<Longrightarrow> length (varint v) \<le> k" if "0 < k" for k
    using that
  proof (induction k arbitrary: v)
    case 0
    then show ?case by simp
  next
    case (Suc k)
    show ?case
    proof (cases "128 \<le> v")
      case False
      then show ?thesis by (simp add: varint_small)
    next
      case True
      have u: "unat (drop_bit 7 v) = unat v div 128" by (simp add: drop_bit_eq_div unat_div)
      from True have kpos: "0 < k"
        using Suc.prems(1) by (cases k) (auto simp: word_le_nat_alt)
      from Suc.prems(1) have "unat v < 128 * 2 ^ (7 * k)" by (simp add: power_add mult.commute)
      then have "unat (drop_bit 7 v) < 2 ^ (7 * k)" unfolding u
        by (simp add: less_mult_imp_div_less mult.commute)
      from Suc.IH [OF this kpos] show ?thesis by (simp add: varint_big [OF True])
    qed
  qed
  have "unat v < 2 ^ 64" using unsigned_less [of v] by simp
  with \<open>\<And>k. 0 < k \<Longrightarrow> unat v < 2 ^ (7 * k) \<Longrightarrow> length (varint v) \<le> k\<close> [of 10]
  show ?thesis by simp
qed


text \<open>
  The fields of a header on the wire. A field is a field of \<open>Header\<close> with a value, or
  the bytes of a field that \<^verbatim>\<open>Unmarshal\<close> does not know.
\<close>

datatype field =
    FSeq uint64
  | FType int32
  | FUri "byte list"
  | FGzip int32
  | FStatusCode int32
  | FStatus "byte list"
  | FUnknown "byte list"

fun field_bytes :: "field \<Rightarrow> byte list" where
  "field_bytes (FSeq v) = 0x8 # varint v"
| "field_bytes (FType v) = 0x10 # varint (scast v)"
| "field_bytes (FUri s) = 0x1a # varint (word_of_int (len s)) @ s"
| "field_bytes (FGzip v) = 0x20 # varint (scast v)"
| "field_bytes (FStatusCode v) = 0x28 # varint (scast v)"
| "field_bytes (FStatus s) = 0x32 # varint (word_of_int (len s)) @ s"
| "field_bytes (FUnknown u) = u"

fun assign :: "field \<Rightarrow> Header \<Rightarrow> Header" where
  "assign (FSeq v) m = m\<lparr>Seq := v\<rparr>"
| "assign (FType v) m = m\<lparr>Type := v\<rparr>"
| "assign (FUri s) m = m\<lparr>Uri := s\<rparr>"
| "assign (FGzip v) m = m\<lparr>Gzip := v\<rparr>"
| "assign (FStatusCode v) m = m\<lparr>StatusCode := v\<rparr>"
| "assign (FStatus s) m = m\<lparr>Status := s\<rparr>"
| "assign (FUnknown u) m = m"

definition wire :: "field list \<Rightarrow> byte list" where
  "wire fs = concat (map field_bytes fs)"

text \<open>The fields of a header that are not zero or empty, in the order of their numbers.\<close>

definition present :: "Header \<Rightarrow> field list" where
  "present m =
     (if Seq m \<noteq> 0 then [FSeq (Seq m)] else []) @
     (if Type m \<noteq> 0 then [FType (Type m)] else []) @
     (if Uri m \<noteq> [] then [FUri (Uri m)] else []) @
     (if Gzip m \<noteq> 0 then [FGzip (Gzip m)] else []) @
     (if StatusCode m \<noteq> 0 then [FStatusCode (StatusCode m)] else []) @
     (if Status m \<noteq> [] then [FStatus (Status m)] else [])"

text \<open>Writing \<open>bs\<close> into a buffer at \<open>i\<close>.\<close>

definition overwrite :: "'a list \<Rightarrow> nat \<Rightarrow> 'a list \<Rightarrow> 'a list" where
  "overwrite d i bs = take i d @ bs @ drop (i + length bs) d"

lemma length_overwrite: "i + length bs \<le> length d \<Longrightarrow> length (overwrite d i bs) = length d"
  by (simp add: overwrite_def)

lemma overwrite_overwrite:
  "i + length a \<le> length d \<Longrightarrow>
   overwrite (overwrite d i a) (i + length a) b = overwrite d i (a @ b)"
  by (simp add: overwrite_def add.commute add.left_commute)

lemma overwrite_nil: "i \<le> length d \<Longrightarrow> overwrite d i [] = d"
  by (simp add: overwrite_def)

lemma take_overwrite: "take (length bs) (overwrite d 0 bs) = bs"
  by (simp add: overwrite_def)

lemma putByte_writes: "i < length d \<Longrightarrow> putByte d i b = Inr (overwrite d i [b])"
  by (simp add: putByte_def overwrite_def upd_conv_take_nth_drop)

lemma encodeVarintHeader_overwrite:
  "i + length (varint v) \<le> length d \<Longrightarrow>
   encodeVarintHeader d i v = Inr (overwrite d i (varint v), i + length (varint v))"
  by (simp add: encodeVarintHeader_writes overwrite_def)

lemma copyAt_writes:
  "i + length s \<le> length d \<Longrightarrow> copyAt d i s = Inr (overwrite d i s, length s)"
  by (auto simp: copyAt_def overwrite_def Let_def min_def)

lemma putVarintField_writes:
  assumes "i + length (tag # varint v) \<le> length d"
  shows "putVarintField tag v (d, i) = Inr (overwrite d i (tag # varint v), i + length (tag # varint v))"
proof -
  from assms have 1: "i < length d" by simp
  from assms have 2: "i + length [tag] + length (varint v) \<le> length (overwrite d i [tag])"
    by (simp add: length_overwrite)
  have 3: "i + length [tag] \<le> length d" using 1 by simp
  show ?thesis
    using overwrite_overwrite [OF 3, of "varint v"] 2
    by (simp add: putVarintField_def bindE_def putByte_writes [OF 1] encodeVarintHeader_overwrite)
qed

lemma putBytesField_writes:
  assumes "i + length (tag # varint (word_of_int (len s)) @ s) \<le> length d"
  shows "putBytesField tag s (d, i) =
     Inr (overwrite d i (tag # varint (word_of_int (len s)) @ s),
          i + length (tag # varint (word_of_int (len s)) @ s))"
proof -
  let ?v = "varint (word_of_int (len s))"
  from assms have 1: "i < length d" by simp
  from assms have 2: "i + length [tag] + length ?v \<le> length (overwrite d i [tag])"
    by (simp add: length_overwrite)
  have 3: "i + length [tag] \<le> length d" using 1 by simp
  have 4: "i + length ([tag] @ ?v) \<le> length d" using assms by simp
  have 5: "i + length ([tag] @ ?v) + length s \<le> length (overwrite d i ([tag] @ ?v))"
    using assms by (simp add: length_overwrite)
  have e: "encodeVarintHeader (overwrite d i [tag]) (i + 1) (word_of_int (len s)) =
      Inr (overwrite d i ([tag] @ ?v), i + length ([tag] @ ?v))"
    using encodeVarintHeader_overwrite [of "i + length [tag]" "word_of_int (len s)" "overwrite d i [tag]"]
      2 overwrite_overwrite [OF 3, of ?v] by simp
  have c: "copyAt (overwrite d i ([tag] @ ?v)) (i + length ([tag] @ ?v)) s =
      Inr (overwrite d i (([tag] @ ?v) @ s), length s)"
    using copyAt_writes [OF 5] overwrite_overwrite [OF 4, of s] by simp
  show ?thesis
    using e c by (simp add: putBytesField_def bindE_def putByte_writes [OF 1])
qed


lemma bindE_Inr: "bindE (Inr x) f = f x"
  by (simp add: bindE_def)

lemma bindE_Inl: "bindE (Inl e) f = Inl e"
  by (simp add: bindE_def)

lemma len_nil: "len [] = 0"
  by (simp add: len_def int64_def)

lemma len_pos_iff: "length s < 2 ^ 63 \<Longrightarrow> 0 < len s \<longleftrightarrow> s \<noteq> []"
  by (simp add: len_eq)

lemma marshal_step_varint:
  assumes "length (xs @ f) \<le> length d" and "f = (if c then tag # varint v else [])"
  shows "(if c then putVarintField tag v (overwrite d 0 xs, length xs)
          else Inr (overwrite d 0 xs, length xs))
         = Inr (overwrite d 0 (xs @ f), length (xs @ f))"
proof (cases c)
  case True
  from assms have "length xs + length (tag # varint v) \<le> length (overwrite d 0 xs)"
    by (simp add: True length_overwrite)
  from putVarintField_writes [OF this] overwrite_overwrite [of 0 xs d "tag # varint v"] assms
  show ?thesis by (simp add: True)
next
  case False
  with assms show ?thesis by simp
qed

lemma marshal_step_bytes:
  assumes "length (xs @ f) \<le> length d" and "length (xs @ f) < 2 ^ 63"
    and "f = (if s \<noteq> [] then tag # varint (word_of_int (len s)) @ s else [])"
  shows "(if len s > 0 then putBytesField tag s (overwrite d 0 xs, length xs)
          else Inr (overwrite d 0 xs, length xs))
         = Inr (overwrite d 0 (xs @ f), length (xs @ f))"
proof (cases "s = []")
  case False
  with assms have "length s < 2 ^ 63" by simp
  then have pos: "0 < len s" using False by (simp add: len_pos_iff)
  from assms False
  have "length xs + length (tag # varint (word_of_int (len s)) @ s) \<le> length (overwrite d 0 xs)"
    by (simp add: length_overwrite)
  from putBytesField_writes [OF this]
    overwrite_overwrite [of 0 xs d "tag # varint (word_of_int (len s)) @ s"] assms False pos
  show ?thesis by simp
next
  case True
  with assms show ?thesis by (simp add: len_nil)
qed

lemma size_step_varint:
  assumes "n = int (length xs)" and "length (xs @ f) < 2 ^ 63"
    and "f = (if c then tag # varint v else [])"
  shows "(if c then int64 (n + (1 + sovHeader v)) else n) = int (length (xs @ f))"
proof (cases c)
  case True
  with assms have "int64 (n + (1 + sovHeader v)) = n + (1 + sovHeader v)"
    by (intro int64_id) (simp_all add: sovHeader_eq)
  with assms True show ?thesis by (simp add: sovHeader_eq)
next
  case False
  with assms show ?thesis by simp
qed

lemma size_step_bytes:
  assumes "n = int (length xs)" and "length (xs @ f) < 2 ^ 63"
    and "f = (if s \<noteq> [] then tag # varint (word_of_int (len s)) @ s else [])"
  shows "(if len s > 0 then int64 (n + (1 + len s + sovHeader (word_of_int (len s)))) else n)
         = int (length (xs @ f))"
proof (cases "s = []")
  case False
  with assms have "length s < 2 ^ 63" by simp
  then have l: "len s = int (length s)" by (rule len_eq)
  with assms False
  have "int64 (n + (1 + len s + sovHeader (word_of_int (len s))))
        = n + (1 + len s + sovHeader (word_of_int (len s)))"
    by (intro int64_id) (simp_all add: sovHeader_eq)
  with assms False l show ?thesis by (simp add: sovHeader_eq)
next
  case True
  with assms show ?thesis by (simp add: len_nil)
qed

lemma wire_present:
  "wire (present m) =
     (if Seq m \<noteq> 0 then 0x8 # varint (Seq m) else []) @
     (if Type m \<noteq> 0 then 0x10 # varint (scast (Type m)) else []) @
     (if Uri m \<noteq> [] then 0x1a # varint (word_of_int (len (Uri m))) @ Uri m else []) @
     (if Gzip m \<noteq> 0 then 0x20 # varint (scast (Gzip m)) else []) @
     (if StatusCode m \<noteq> 0 then 0x28 # varint (scast (StatusCode m)) else []) @
     (if Status m \<noteq> [] then 0x32 # varint (word_of_int (len (Status m))) @ Status m else [])"
  by (simp add: wire_def present_def)

lemma Size_and_MarshalTo:
  assumes "length (wire (present m)) < 2 ^ 63"
  shows "Size m = int (length (wire (present m)))"
    and "length (wire (present m)) \<le> length d \<Longrightarrow>
         MarshalTo m d = Inr (overwrite d 0 (wire (present m)), length (wire (present m)))"
proof -
  define f1 where "f1 = (if Seq m \<noteq> 0 then 0x8 # varint (Seq m) else [])"
  define f2 where "f2 = (if Type m \<noteq> 0 then 0x10 # varint (scast (Type m)) else [])"
  define f3 where "f3 = (if Uri m \<noteq> [] then 0x1a # varint (word_of_int (len (Uri m))) @ Uri m else [])"
  define f4 where "f4 = (if Gzip m \<noteq> 0 then 0x20 # varint (scast (Gzip m)) else [])"
  define f5 where "f5 = (if StatusCode m \<noteq> 0 then 0x28 # varint (scast (StatusCode m)) else [])"
  define f6 where "f6 = (if Status m \<noteq> [] then 0x32 # varint (word_of_int (len (Status m))) @ Status m else [])"
  have w: "wire (present m) = ((((([] @ f1) @ f2) @ f3) @ f4) @ f5) @ f6"
    unfolding wire_present f1_def f2_def f3_def f4_def f5_def f6_def by simp
  from assms have b: "length (((((([] @ f1) @ f2) @ f3) @ f4) @ f5) @ f6) < 2 ^ 63"
    unfolding w .
  have b1: "length ([] @ f1) < 2 ^ 63" using b by simp
  have b2: "length (([] @ f1) @ f2) < 2 ^ 63" using b by simp
  have b3: "length ((([] @ f1) @ f2) @ f3) < 2 ^ 63" using b by simp
  have b4: "length (((([] @ f1) @ f2) @ f3) @ f4) < 2 ^ 63" using b by simp
  have b5: "length ((((([] @ f1) @ f2) @ f3) @ f4) @ f5) < 2 ^ 63" using b by simp
  have n0: "(0::int) = int (length ([]::byte list))" by simp
  note n1 = size_step_varint [OF n0 b1 f1_def]
  note n2 = size_step_varint [OF n1 b2 f2_def]
  note n3 = size_step_bytes [OF n2 b3 f3_def]
  note n4 = size_step_varint [OF n3 b4 f4_def]
  note n5 = size_step_varint [OF n4 b5 f5_def]
  note n6 = size_step_bytes [OF n5 b f6_def]
  show "Size m = int (length (wire (present m)))"
    unfolding Size_def Let_def w by (rule n6)
  assume "length (wire (present m)) \<le> length d"
  then have c: "length (((((([] @ f1) @ f2) @ f3) @ f4) @ f5) @ f6) \<le> length d"
    unfolding w .
  have c1: "length ([] @ f1) \<le> length d" using c by simp
  have c2: "length (([] @ f1) @ f2) \<le> length d" using c by simp
  have c3: "length ((([] @ f1) @ f2) @ f3) \<le> length d" using c by simp
  have c4: "length (((([] @ f1) @ f2) @ f3) @ f4) \<le> length d" using c by simp
  have c5: "length ((((([] @ f1) @ f2) @ f3) @ f4) @ f5) \<le> length d" using c by simp
  have s0: "(d, 0) = (overwrite d 0 [], length ([]::byte list))" by (simp add: overwrite_nil)
  note s1 = marshal_step_varint [OF c1 f1_def]
  note s2 = marshal_step_varint [OF c2 f2_def]
  note s3 = marshal_step_bytes [OF c3 b3 f3_def]
  note s4 = marshal_step_varint [OF c4 f4_def]
  note s5 = marshal_step_varint [OF c5 f5_def]
  note s6 = marshal_step_bytes [OF c b f6_def]
  show "MarshalTo m d = Inr (overwrite d 0 (wire (present m)), length (wire (present m)))"
    unfolding MarshalTo_def s0 s1 bindE_Inr s2 s3 s4 s5 s6 w ..
qed

lemma Marshal_wire:
  assumes "length (wire (present m)) < 2 ^ 63"
  shows "Marshal m = Inr (wire (present m))"
proof -
  let ?w = "wire (present m)"
  have sz: "Size m = int (length ?w)" by (rule Size_and_MarshalTo(1) [OF assms])
  have "MarshalTo m (replicate (length ?w) 0) = Inr (overwrite (replicate (length ?w) 0) 0 ?w, length ?w)"
    by (rule Size_and_MarshalTo(2) [OF assms]) simp
  then show ?thesis
    by (simp add: Marshal_def sz Let_def bindE_Inr take_overwrite)
qed

section \<open>Reading what was written\<close>

lemma mask7: "(0x7f :: 'a::len word) = mask 7"
  by (simp add: mask_eq_exp_minus_1)

lemma w128: "(0x80 :: 'a::len word) = 2 ^ 7"
  by simp

lemma bit_128: "bit (0x80 :: 'b::len word) n \<longleftrightarrow> n = 7 \<and> 7 < LENGTH('b)"
  using bit_exp_iff [of 7 n, where ?'a = "'b word"] by (auto simp: possible_bit_word)

lemma bit_128_int: "bit (128 :: int) n \<longleftrightarrow> n = 7"
  using bit_exp_iff [of 7 n, where ?'a = int] by simp

lemma byte_cont_low7:
  "(ucast (ucast (((v::uint64) AND 0x7f) OR 0x80) :: byte) :: 'a::len word) AND 0x7f = ucast (v AND 0x7f)"
  unfolding mask7
  by (rule bit_word_eqI) (auto simp: bit_simps bit_128 bit_128_int)

lemma byte_lt128_iff: "(b::byte) < 0x80 \<longleftrightarrow> \<not> bit b 7"
proof -
  have "unat (drop_bit 7 b) = unat b div 128" by (simp add: drop_bit_eq_div unat_div)
  then have "unat (drop_bit 7 b) = 0 \<longleftrightarrow> unat b < 128" by (simp add: div_eq_0_iff)
  then have "drop_bit 7 b = 0 \<longleftrightarrow> b < 0x80" by (simp add: unat_eq_zero word_less_nat_alt)
  then show ?thesis using drop_bit_eq_zero_iff_not_bit_last [of b] by simp
qed

lemma byte_cont_high: "\<not> (ucast (((v::uint64) AND 0x7f) OR 0x80) :: byte) < 0x80"
  unfolding byte_lt128_iff by (simp add: bit_simps bit_128 bit_128_int)

lemma lt128_take_bit: "\<not> 128 \<le> (v::uint64) \<Longrightarrow> take_bit 7 v = v"
  by (simp add: take_bit_eq_self_iff_drop_bit_eq_0 drop7_zero_iff)

lemma byte_last_low7:
  assumes "\<not> 128 \<le> (v::uint64)"
  shows "(ucast (ucast v :: byte) :: 'a::len word) AND 0x7f = ucast v"
proof -
  have "(ucast (ucast (take_bit 7 v) :: byte) :: 'a word) AND mask 7 = ucast (take_bit 7 v)"
    by (rule bit_word_eqI) (auto simp: bit_simps)
  then show ?thesis unfolding mask7 lt128_take_bit [OF assms] .
qed

lemma byte_last_high:
  assumes "\<not> 128 \<le> (v::uint64)"
  shows "(ucast v :: byte) < 0x80"
proof -
  have "\<not> bit (ucast (take_bit 7 v) :: byte) 7" by (simp add: bit_simps)
  then show ?thesis unfolding byte_lt128_iff lt128_take_bit [OF assms] .
qed

lemma push_split7:
  "push_bit s (ucast ((v::uint64) AND 0x7f) :: 'a::len word) OR push_bit (s + 7) (ucast (drop_bit 7 v))
     = push_bit s (ucast v)"
  unfolding mask7
proof (rule bit_word_eqI)
  fix n assume "n < LENGTH('a)"
  show "bit (push_bit s (ucast (v AND mask 7) :: 'a word) OR push_bit (s + 7) (ucast (drop_bit 7 v))) n
      = bit (push_bit s (ucast v) :: 'a word) n"
  proof (cases "n - s < 7")
    case True
    then show ?thesis by (auto simp: bit_simps)
  next
    case False
    then have "7 + (n - (s + 7)) = n - s" "s + 7 \<le> n" by simp_all
    then show ?thesis using False by (auto simp: bit_simps dest: bit_imp_le_length)
  qed
qed


lemma readVarint_step_last:
  assumes "length d < 2 ^ 63" "n < length d" "s < 64" "d ! n < 0x80"
  shows "readVarint d (int n) s acc = Inr (acc OR push_bit s (ucast (d ! n) AND 0x7F), int n + 1)"
  using assms by (subst readVarint.simps) (simp add: len_eq Let_def)

lemma readVarint_step_cont:
  assumes "length d < 2 ^ 63" "n < length d" "s < 64" "\<not> d ! n < 0x80"
  shows "readVarint d (int n) s acc =
         readVarint d (int (n + 1)) (s + 7) (acc OR push_bit s (ucast (d ! n) AND 0x7F))"
  using assms by (subst readVarint.simps) (simp add: len_eq Let_def add.commute)

lemma readVarint_varint:
  fixes acc :: "'a::len word"
  assumes "length (pre @ varint v @ post) < 2 ^ 63" and "s < 64" and "unat v < 2 ^ (64 - s)"
  shows "readVarint (pre @ varint v @ post) (int (length pre)) s acc =
         Inr (acc OR push_bit s (ucast v), int (length pre + length (varint v)))"
  using assms
proof (induction v arbitrary: pre s acc rule: varint.induct)
  case (1 v)
  let ?d = "pre @ varint v @ post"
  have n: "length pre < length ?d" using length_varint_pos [of v] by simp
  show ?case
  proof (cases "128 \<le> v")
    case False
    have b: "?d ! length pre = ucast v" by (simp add: varint_small [OF False] nth_append)
    have "readVarint ?d (int (length pre)) s acc =
        Inr (acc OR push_bit s (ucast (?d ! length pre) AND 0x7F), int (length pre) + 1)"
      by (rule readVarint_step_last [OF "1.prems"(1) n "1.prems"(2)])
        (simp add: b byte_last_high [OF False])
    then show ?thesis
      by (simp add: b byte_last_low7 [OF False] varint_small [OF False])
  next
    case True
    let ?b = "ucast ((v AND 0x7f) OR 0x80) :: byte"
    let ?v' = "drop_bit 7 v"
    have vv: "varint v = ?b # varint ?v'" by (rule varint_big [OF True])
    have b: "?d ! length pre = ?b" by (simp add: vv nth_append)
    have d': "?d = (pre @ [?b]) @ varint ?v' @ post" by (simp add: vv)
    have u: "unat ?v' = unat v div 128" by (simp add: drop_bit_eq_div unat_div)
    from True have "128 \<le> unat v" by (simp add: word_le_nat_alt)
    have "7 < 64 - s"
    proof (rule ccontr)
      assume "\<not> 7 < 64 - s"
      then have "64 - s \<le> 7" by simp
      then have "(2::nat) ^ (64 - s) \<le> 2 ^ 7" by (rule power_increasing) simp
      with "1.prems"(3) \<open>128 \<le> unat v\<close> show False by simp
    qed
    then have s7: "s + 7 < 64" by simp
    then have "64 - s = 7 + (64 - (s + 7))" by simp
    then have "(2::nat) ^ (64 - s) = 2 ^ 7 * 2 ^ (64 - (s + 7))"
      by (simp only: power_add)
    then have "(2::nat) ^ (64 - s) = 128 * 2 ^ (64 - (s + 7))" by simp
    with "1.prems"(3) have small: "unat ?v' < 2 ^ (64 - (s + 7))"
      unfolding u by (simp add: less_mult_imp_div_less mult.commute)
    have len': "length ((pre @ [?b]) @ varint ?v' @ post) < 2 ^ 63"
      using "1.prems"(1) unfolding d' .
    have "readVarint ?d (int (length pre)) s acc =
        readVarint ?d (int (length pre + 1)) (s + 7) (acc OR push_bit s (ucast (?d ! length pre) AND 0x7F))"
      by (rule readVarint_step_cont [OF "1.prems"(1) n "1.prems"(2)]) (simp add: b byte_cont_high)
    also have "\<dots> = readVarint ((pre @ [?b]) @ varint ?v' @ post) (int (length (pre @ [?b]))) (s + 7)
        (acc OR push_bit s (ucast (v AND 0x7f)))"
      unfolding b byte_cont_low7 d' [symmetric] by simp
    also note "1.IH" [OF True len' s7 small]
    finally show ?thesis
      by (simp add: vv or.assoc push_split7)
  qed
qed

lemma readVarint_varint0:
  assumes "length (pre @ varint v @ post) < 2 ^ 63"
  shows "readVarint (pre @ varint v @ post) (int (length pre)) 0 (0::'a::len word) =
         Inr (ucast v, int (length pre + length (varint v)))"
  using readVarint_varint [OF assms, of 0 "0::'a word"] unsigned_less [of v, where ?'a = nat]
  by simp


lemma readVarint_truncated:
  fixes acc :: "'a::len word"
  assumes "length (pre @ take n (varint v)) < 2 ^ 63" and "n < length (varint v)"
    and "s < 64" and "unat v < 2 ^ (64 - s)"
  shows "readVarint (pre @ take n (varint v)) (int (length pre)) s acc = Inl ErrUnexpectedEOF"
  using assms
proof (induction v arbitrary: pre n s acc rule: varint.induct)
  case (1 v)
  show ?case
  proof (cases n)
    case 0
    with "1.prems" show ?thesis
      by (subst readVarint.simps) (simp add: len_eq)
  next
    case (Suc n')
    with "1.prems"(2) have True: "128 \<le> v"
      by (cases "128 \<le> v") (simp_all add: varint_small)
    let ?b = "ucast ((v AND 0x7f) OR 0x80) :: byte"
    let ?v' = "drop_bit 7 v"
    let ?d = "pre @ take n (varint v)"
    have vv: "varint v = ?b # varint ?v'" by (rule varint_big [OF True])
    have tk: "take n (varint v) = ?b # take n' (varint ?v')" by (simp add: vv Suc)
    have n: "length pre < length ?d" by (simp add: tk)
    have b: "?d ! length pre = ?b" by (simp add: tk nth_append)
    have d': "?d = (pre @ [?b]) @ take n' (varint ?v')" by (simp add: tk)
    have n'lt: "n' < length (varint ?v')" using "1.prems"(2) by (simp add: vv Suc)
    have u: "unat ?v' = unat v div 128" by (simp add: drop_bit_eq_div unat_div)
    from True have "128 \<le> unat v" by (simp add: word_le_nat_alt)
    have "7 < 64 - s"
    proof (rule ccontr)
      assume "\<not> 7 < 64 - s"
      then have "64 - s \<le> 7" by simp
      then have "(2::nat) ^ (64 - s) \<le> 2 ^ 7" by (rule power_increasing) simp
      with "1.prems"(4) \<open>128 \<le> unat v\<close> show False by simp
    qed
    then have s7: "s + 7 < 64" by simp
    then have "64 - s = 7 + (64 - (s + 7))" by simp
    then have "(2::nat) ^ (64 - s) = 2 ^ 7 * 2 ^ (64 - (s + 7))"
      by (simp only: power_add)
    then have "(2::nat) ^ (64 - s) = 128 * 2 ^ (64 - (s + 7))" by simp
    with "1.prems"(4) have small: "unat ?v' < 2 ^ (64 - (s + 7))"
      unfolding u by (simp add: less_mult_imp_div_less mult.commute)
    have len': "length ((pre @ [?b]) @ take n' (varint ?v')) < 2 ^ 63"
      using "1.prems"(1) unfolding d' .
    have "readVarint ?d (int (length pre)) s acc =
        readVarint ?d (int (length pre + 1)) (s + 7) (acc OR push_bit s (ucast (?d ! length pre) AND 0x7F))"
      by (rule readVarint_step_cont [OF "1.prems"(1) n "1.prems"(3)]) (simp add: b byte_cont_high)
    also have "\<dots> = readVarint ((pre @ [?b]) @ take n' (varint ?v')) (int (length (pre @ [?b]))) (s + 7)
        (acc OR push_bit s (ucast (v AND 0x7f)))"
      unfolding b byte_cont_low7 d' [symmetric] by simp
    also note "1.IH" [OF True len' n'lt s7 small]
    finally show ?thesis .
  qed
qed

lemma readVarint_truncated0:
  assumes "length (pre @ take n (varint v)) < 2 ^ 63" and "n < length (varint v)"
  shows "readVarint (pre @ take n (varint v)) (int (length pre)) 0 (0::'a::len word)
         = Inl ErrUnexpectedEOF"
  using readVarint_truncated [OF assms, of 0 "0::'a word"] unsigned_less [of v, where ?'a = nat]
  by simp

lemma readVarint_tag:
  assumes "length d < 2 ^ 63" "n < length d" "d ! n = tag" "tag < 0x80"
  shows "readVarint d (int n) 0 (0::uint64) = Inr (ucast tag AND 0x7F, int n + 1)"
  using readVarint_step_last [OF assms(1,2), of 0 "0::uint64"] assms(3,4) by simp

lemma readVarint_after_tag:
  assumes "length (pre @ tag # varint v @ post) < 2 ^ 63"
  shows "readVarint (pre @ tag # varint v @ post) (int (length pre) + 1) 0 (0::'a::len word) =
         Inr (ucast v, int (length pre) + 1 + int (length (varint v)))"
  using readVarint_varint0 [of "pre @ [tag]" v post, where ?'a = 'a] assms
  by (simp add: add.commute add.left_commute)

lemma ucast_scast32: "(ucast (scast (t::int32) :: uint64) :: int32) = t"
  by (rule bit_word_eqI) (auto simp: bit_simps)

lemma sint_len:
  assumes "length s < 2 ^ 63"
  shows "sint (word_of_int (len s) :: uint64) = int (length s)"
proof -
  have "sint (word_of_int (len s) :: uint64) = signed_take_bit 63 (len s)"
    by (simp only: sint_sbintrunc') simp
  also have "\<dots> = signed_take_bit 63 (int (length s))"
    by (simp only: len_eq [OF assms])
  also have "\<dots> = int (length s)"
    using assms by (intro signed_take_bit_int_eq_self) simp_all
  finally show ?thesis .
qed

lemma readString_bytes:
  assumes "length (pre @ tag # varint (word_of_int (len s)) @ s @ post) < 2 ^ 63"
  shows "readString (pre @ tag # varint (word_of_int (len s)) @ s @ post) (int (length pre) + 1) =
         Inr (s, int (length pre) + 1 + int (length (varint (word_of_int (len s)))) + int (length s))"
proof -
  let ?v = "varint (word_of_int (len s) :: uint64)"
  let ?d = "pre @ tag # ?v @ s @ post"
  from assms have ls: "length s < 2 ^ 63" by simp
  have rv: "readVarint ?d (int (length pre) + 1) 0 (0::uint64) =
         Inr (word_of_int (len s), int (length pre) + 1 + int (length ?v))"
    using readVarint_after_tag [of pre tag "word_of_int (len s)" "s @ post", where ?'a = 64] assms
    by simp
  have p: "int64 (int (length pre) + 1 + int (length ?v) + int (length s))
      = int (length pre) + 1 + int (length ?v) + int (length s)"
    using assms by (intro int64_id) simp_all
  have dr: "drop (nat (int (length pre) + 1 + int (length ?v))) ?d = s @ post"
  proof -
    have "nat (int (length pre) + 1 + int (length ?v)) = length (pre @ tag # ?v)" by simp
    moreover have "?d = (pre @ tag # ?v) @ s @ post" by simp
    ultimately show ?thesis by (metis append_eq_conv_conj)
  qed
  have ld: "len ?d = int (length ?d)" using assms by (rule len_eq)
  have le: "\<not> int (length pre) + 1 + int (length ?v) + int (length s) > int (length ?d)"
    by simp
  have ge: "\<not> int (length pre) + 1 + int (length ?v) + int (length s)
      < int (length pre) + 1 + int (length ?v)" by simp
  have nn: "\<not> int (length s) < 0" by simp
  have tk: "take (nat (int (length pre) + 1 + int (length ?v) + int (length s)
      - (int (length pre) + 1 + int (length ?v)))) (s @ post) = s" by simp
  show ?thesis
    unfolding readString_def rv sum.case prod.case Let_def sint_len [OF ls] p ld dr
    by (simp only: le ge nn if_False tk)
qed

lemma Unmarshal_field_after_tag:
  assumes "readVarint d i 0 (0::uint64) = Inr (w, i1)"
  shows "Unmarshal_field d m i =
     (let wire = w; iNdEx = i1;
          fieldNum = (ucast (drop_bit 3 wire) :: int32);
          wireType = uint (wire AND 0x7) in
          if wireType = 4 then Inl ErrEndGroup
          else if sint fieldNum \<le> 0 then Inl (ErrIllegalTag fieldNum wire)
          else if fieldNum = 1 then
            (if wireType \<noteq> 0 then Inl (ErrWrongWireType wireType ''Seq'')
             else case readVarint d iNdEx 0 (0::uint64) of
                    Inl e \<Rightarrow> Inl e
                  | Inr (v, iNdEx) \<Rightarrow> Inr (m\<lparr>Seq := v\<rparr>, iNdEx))
          else if fieldNum = 2 then
            (if wireType \<noteq> 0 then Inl (ErrWrongWireType wireType ''Type'')
             else case readVarint d iNdEx 0 (0::int32) of
                    Inl e \<Rightarrow> Inl e
                  | Inr (v, iNdEx) \<Rightarrow> Inr (m\<lparr>Type := v\<rparr>, iNdEx))
          else if fieldNum = 3 then
            (if wireType \<noteq> 2 then Inl (ErrWrongWireType wireType ''Uri'')
             else case readString d iNdEx of
                    Inl e \<Rightarrow> Inl e
                  | Inr (s, iNdEx) \<Rightarrow> Inr (m\<lparr>Uri := s\<rparr>, iNdEx))
          else if fieldNum = 4 then
            (if wireType \<noteq> 0 then Inl (ErrWrongWireType wireType ''Gzip'')
             else case readVarint d iNdEx 0 (0::int32) of
                    Inl e \<Rightarrow> Inl e
                  | Inr (v, iNdEx) \<Rightarrow> Inr (m\<lparr>Gzip := v\<rparr>, iNdEx))
          else if fieldNum = 5 then
            (if wireType \<noteq> 0 then Inl (ErrWrongWireType wireType ''StatusCode'')
             else case readVarint d iNdEx 0 (0::int32) of
                    Inl e \<Rightarrow> Inl e
                  | Inr (v, iNdEx) \<Rightarrow> Inr (m\<lparr>StatusCode := v\<rparr>, iNdEx))
          else if fieldNum = 6 then
            (if wireType \<noteq> 2 then Inl (ErrWrongWireType wireType ''Status'')
             else case readString d iNdEx of
                    Inl e \<Rightarrow> Inl e
                  | Inr (s, iNdEx) \<Rightarrow> Inr (m\<lparr>Status := s\<rparr>, iNdEx))
          else
            (let iNdEx = i in
             case skipHeader (drop (nat iNdEx) d) of
               Inl e \<Rightarrow> Inl e
             | Inr skippy \<Rightarrow>
                 if skippy < 0 then Inl ErrInvalidLengthHeader
                 else if int64 (iNdEx + skippy) > len d then Inl ErrUnexpectedEOF
                 else Inr (m, int64 (iNdEx + skippy))))"
  unfolding Unmarshal_field_def assms sum.case prod.case Let_def ..

lemmas Unmarshal_field_at_tag = Unmarshal_field_after_tag [OF readVarint_tag]

lemma Unmarshal_field_Seq:
  assumes "length (pre @ 0x8 # varint v @ post) < 2 ^ 63"
  shows "Unmarshal_field (pre @ 0x8 # varint v @ post) m (int (length pre)) =
     Inr (m\<lparr>Seq := v\<rparr>, int (length pre) + 1 + int (length (varint v)))"
proof -
  let ?d = "pre @ 0x8 # varint v @ post"
  have 1: "length pre < length ?d" by simp
  have 2: "?d ! length pre = 0x8" by (simp add: nth_append)
  show ?thesis
    unfolding Unmarshal_field_at_tag [OF assms 1 2, simplified]
    by (simp add: readVarint_after_tag [OF assms])
qed

lemma Unmarshal_field_Type:
  assumes "length (pre @ 0x10 # varint (scast v) @ post) < 2 ^ 63"
  shows "Unmarshal_field (pre @ 0x10 # varint (scast v) @ post) m (int (length pre)) =
     Inr (m\<lparr>Type := v\<rparr>, int (length pre) + 1 + int (length (varint (scast v))))"
proof -
  let ?d = "pre @ 0x10 # varint (scast v) @ post"
  have 1: "length pre < length ?d" by simp
  have 2: "?d ! length pre = 0x10" by (simp add: nth_append)
  show ?thesis
    unfolding Unmarshal_field_at_tag [OF assms 1 2, simplified]
    by (simp add: readVarint_after_tag [OF assms] ucast_scast32)
qed

lemma Unmarshal_field_Uri:
  assumes "length (pre @ 0x1a # varint (word_of_int (len s)) @ s @ post) < 2 ^ 63"
  shows "Unmarshal_field (pre @ 0x1a # varint (word_of_int (len s)) @ s @ post) m (int (length pre)) =
     Inr (m\<lparr>Uri := s\<rparr>, int (length pre) + 1 + int (length (varint (word_of_int (len s)))) + int (length s))"
proof -
  let ?d = "pre @ 0x1a # varint (word_of_int (len s)) @ s @ post"
  have 1: "length pre < length ?d" by simp
  have 2: "?d ! length pre = 0x1a" by (simp add: nth_append)
  show ?thesis
    unfolding Unmarshal_field_at_tag [OF assms 1 2, simplified] readString_bytes [OF assms]
    by simp
qed


lemma Unmarshal_field_Gzip:
  assumes "length (pre @ 0x20 # varint (scast v) @ post) < 2 ^ 63"
  shows "Unmarshal_field (pre @ 0x20 # varint (scast v) @ post) m (int (length pre)) =
     Inr (m\<lparr>Gzip := v\<rparr>, int (length pre) + 1 + int (length (varint (scast v))))"
proof -
  let ?d = "pre @ 0x20 # varint (scast v) @ post"
  have 1: "length pre < length ?d" by simp
  have 2: "?d ! length pre = 0x20" by (simp add: nth_append)
  show ?thesis
    unfolding Unmarshal_field_at_tag [OF assms 1 2, simplified]
    by (simp add: readVarint_after_tag [OF assms] ucast_scast32)
qed

lemma Unmarshal_field_StatusCode:
  assumes "length (pre @ 0x28 # varint (scast v) @ post) < 2 ^ 63"
  shows "Unmarshal_field (pre @ 0x28 # varint (scast v) @ post) m (int (length pre)) =
     Inr (m\<lparr>StatusCode := v\<rparr>, int (length pre) + 1 + int (length (varint (scast v))))"
proof -
  let ?d = "pre @ 0x28 # varint (scast v) @ post"
  have 1: "length pre < length ?d" by simp
  have 2: "?d ! length pre = 0x28" by (simp add: nth_append)
  show ?thesis
    unfolding Unmarshal_field_at_tag [OF assms 1 2, simplified]
    by (simp add: readVarint_after_tag [OF assms] ucast_scast32)
qed

lemma Unmarshal_field_Status:
  assumes "length (pre @ 0x32 # varint (word_of_int (len s)) @ s @ post) < 2 ^ 63"
  shows "Unmarshal_field (pre @ 0x32 # varint (word_of_int (len s)) @ s @ post) m (int (length pre)) =
     Inr (m\<lparr>Status := s\<rparr>, int (length pre) + 1 + int (length (varint (word_of_int (len s)))) + int (length s))"
proof -
  let ?d = "pre @ 0x32 # varint (word_of_int (len s)) @ s @ post"
  have 1: "length pre < length ?d" by simp
  have 2: "?d ! length pre = 0x32" by (simp add: nth_append)
  show ?thesis
    unfolding Unmarshal_field_at_tag [OF assms 1 2, simplified] readString_bytes [OF assms]
    by simp
qed

text \<open>The fields that \<^verbatim>\<open>Unmarshal\<close> knows.\<close>

fun known :: "field \<Rightarrow> bool" where
  "known (FUnknown u) = False"
| "known f = True"

lemma Unmarshal_field_known:
  assumes "length (pre @ field_bytes f @ post) < 2 ^ 63" and "known f"
  shows "Unmarshal_field (pre @ field_bytes f @ post) m (int (length pre)) =
     Inr (assign f m, int (length pre + length (field_bytes f)))"
proof (cases f)
  case (FSeq v)
  with assms Unmarshal_field_Seq [of pre v post m] show ?thesis by simp
next
  case (FType v)
  with assms Unmarshal_field_Type [of pre v post m] show ?thesis by simp
next
  case (FUri s)
  with assms Unmarshal_field_Uri [of pre s post m] show ?thesis by simp
next
  case (FGzip v)
  with assms Unmarshal_field_Gzip [of pre v post m] show ?thesis by simp
next
  case (FStatusCode v)
  with assms Unmarshal_field_StatusCode [of pre v post m] show ?thesis by simp
next
  case (FStatus s)
  with assms Unmarshal_field_Status [of pre s post m] show ?thesis by simp
next
  case (FUnknown u)
  with assms show ?thesis by simp
qed


lemma skipVarint_readVarint:
  "skipVarint d i s = (case readVarint d i s (acc::uint64) of Inl e \<Rightarrow> Inl e | Inr (v, j) \<Rightarrow> Inr j)"
proof (induction d i s acc rule: readVarint.induct)
  case (1 dAtA iNdEx shift acc)
  show ?case
  proof (cases "64 \<le> shift \<or> len dAtA \<le> iNdEx \<or> iNdEx < 0")
    case True
    then show ?thesis
      by (subst skipVarint.simps, subst readVarint.simps) (auto simp: Let_def)
  next
    case False
    then have c: "\<not> 64 \<le> shift" "\<not> len dAtA \<le> iNdEx" "\<not> iNdEx < 0" by simp_all
    show ?thesis
    proof (cases "dAtA ! nat iNdEx < 0x80")
      case True
      with c show ?thesis
        by (subst skipVarint.simps, subst readVarint.simps) (simp add: Let_def)
    next
      case F: False
      from "1.IH" [OF c refl refl refl F] c F show ?thesis
        by (subst skipVarint.simps, subst readVarint.simps) (simp add: Let_def)
    qed
  qed
qed

lemma skipVarint_varint:
  assumes "length (pre @ varint v @ post) < 2 ^ 63"
  shows "skipVarint (pre @ varint v @ post) (int (length pre)) 0 = Inr (int (length pre + length (varint v)))"
  unfolding skipVarint_readVarint [where acc = 0] readVarint_varint0 [OF assms] by simp

text \<open>
  A tag is the varint of the field number, shifted by three bits, with the wire type in
  the low bits. Field numbers are from 1 to \<open>2 ^ 29 - 1\<close>.
\<close>

definition tag :: "uint64 \<Rightarrow> uint64 \<Rightarrow> byte list" where
  "tag num wt = varint (push_bit 3 num OR wt)"

definition field_number :: "uint64 \<Rightarrow> bool" where
  "field_number num \<longleftrightarrow> 0 < num \<and> num < 2 ^ 29"

text \<open>
  The bytes of one field with the number \<open>num\<close>, of any of the wire types 0, 1, 2, 3
  and 5, as an encoder of the format writes it: a varint, eight bytes, a length and that
  many bytes, a group (fields between a start tag and an end tag of wire type 4), four
  bytes. \<open>wire_fields\<close> are the bytes of a sequence of fields.
\<close>

inductive wire_field :: "uint64 \<Rightarrow> byte list \<Rightarrow> bool"
  and wire_fields :: "byte list \<Rightarrow> bool" where
  varint_field: "field_number num \<Longrightarrow> wire_field num (tag num 0 @ varint v)"
| fixed64_field: "field_number num \<Longrightarrow> length bs = 8 \<Longrightarrow> wire_field num (tag num 1 @ bs)"
| bytes_field: "field_number num \<Longrightarrow> wire_field num (tag num 2 @ varint (of_nat (length bs)) @ bs)"
| group_field: "field_number num \<Longrightarrow> wire_fields body \<Longrightarrow>
     wire_field num (tag num 3 @ body @ tag num 4)"
| fixed32_field: "field_number num \<Longrightarrow> length bs = 4 \<Longrightarrow> wire_field num (tag num 5 @ bs)"
| no_fields: "wire_fields []"
| more_fields: "wire_field num f \<Longrightarrow> wire_fields fs \<Longrightarrow> wire_fields (f @ fs)"

lemma tag_read:
  assumes "length (pre @ tag num wt @ post) < 2 ^ 63"
  shows "readVarint (pre @ tag num wt @ post) (int (length pre)) 0 (0::uint64) =
         Inr (push_bit 3 num OR wt, int (length pre + length (tag num wt)))"
  using readVarint_varint0 [of pre "push_bit 3 num OR wt" post, where ?'a = 64] assms
  by (simp add: tag_def)

lemma tag_nonempty: "tag num wt \<noteq> []"
  by (simp add: tag_def varint_nonempty)

lemma mask3: "(7 :: 'a::len word) = mask 3"
  by (simp add: mask_eq_exp_minus_1)

lemma drop3_small: "wt < (8::uint64) \<Longrightarrow> drop_bit 3 wt = 0"
proof -
  assume "wt < 8"
  then have "unat wt < 8" by (simp add: word_less_nat_alt)
  moreover have "unat (drop_bit 3 wt) = unat wt div 8" by (simp add: drop_bit_eq_div unat_div)
  ultimately have "unat (drop_bit 3 wt) = 0" by simp
  then show ?thesis by (simp add: unat_eq_zero)
qed

lemma wire_type_of_tag:
  assumes "wt < 8"
  shows "(push_bit 3 num OR wt) AND 7 = (wt::uint64)"
proof -
  from assms have "take_bit 3 wt = wt"
    by (simp add: take_bit_eq_self_iff_drop_bit_eq_0 drop3_small)
  then have "wt AND mask 3 = wt" by (simp add: take_bit_eq_mask)
  moreover have "push_bit 3 num AND mask 3 = (0::uint64)"
    by (rule bit_word_eqI) (auto simp: bit_simps)
  ultimately show ?thesis unfolding mask3 by (simp add: bit.conj_disj_distrib2)
qed

lemma number_of_tag:
  assumes "wt < 8"
  shows "(ucast (drop_bit 3 (push_bit 3 num OR wt :: uint64)) :: int32) = ucast num"
proof -
  from assms have "drop_bit 3 wt = 0" by (simp add: drop3_small)
  moreover have "drop_bit 3 (push_bit 3 num) = take_bit 61 num"
    by (rule bit_word_eqI) (auto simp: bit_simps)
  ultimately have "drop_bit 3 (push_bit 3 num OR wt) = take_bit 61 num"
    by (simp add: drop_bit_or)
  moreover have "(ucast (take_bit 61 num) :: int32) = ucast num"
    by (rule bit_word_eqI) (auto simp: bit_simps)
  ultimately show ?thesis by simp
qed


lemma skipHeader_after_tag:
  assumes "0 < len d" and "readVarint d 0 0 (0::uint64) = Inr (w, i1)"
  shows "skipHeader d =
     (let wireType = uint (w AND 0x7) in
      if wireType = 0 then skipVarint d i1 0
      else if wireType = 1 then Inr (int64 (i1 + 8))
      else if wireType = 2 then
        (case readVarint d i1 0 (0::uint64) of
           Inl e \<Rightarrow> Inl e
         | Inr (length', iNdEx) \<Rightarrow>
             let iNdEx = int64 (iNdEx + sint length') in
             if sint length' < 0 then Inl ErrInvalidLengthHeader
             else Inr iNdEx)
      else if wireType = 3 then skipGroup d i1
      else if wireType = 4 then Inr i1
      else if wireType = 5 then Inr (int64 (i1 + 4))
      else Inl (ErrIllegalWireType wireType))"
  using assms(1) unfolding skipHeader.simps [of d] Let_def assms(2) by simp

lemma skipGroup_after_tag:
  assumes "readVarint d i 0 (0::uint64) = Inr (w, i1)"
  shows "skipGroup d i =
     (if uint (w AND 0x7) = 4 then Inr i1
      else (case skipHeader (drop (nat i) d) of
              Inl e \<Rightarrow> Inl e
            | Inr next \<Rightarrow> skipGroup d (int64 (i + next))))"
  by (subst skipGroup.simps) (simp add: assms Let_def)

lemma skipHeader_tagged:
  assumes "length (tag num wt @ rest) < 2 ^ 63" and "wt < 8"
  shows "skipHeader (tag num wt @ rest) =
     (let d = tag num wt @ rest; i1 = int (length (tag num wt)) in
      if wt = 0 then skipVarint d i1 0
      else if wt = 1 then Inr (int64 (i1 + 8))
      else if wt = 2 then
        (case readVarint d i1 0 (0::uint64) of
           Inl e \<Rightarrow> Inl e
         | Inr (length', iNdEx) \<Rightarrow>
             let iNdEx = int64 (iNdEx + sint length') in
             if sint length' < 0 then Inl ErrInvalidLengthHeader
             else Inr iNdEx)
      else if wt = 3 then skipGroup d i1
      else if wt = 4 then Inr i1
      else if wt = 5 then Inr (int64 (i1 + 4))
      else Inl (ErrIllegalWireType (uint wt)))"
proof -
  let ?d = "tag num wt @ rest"
  have "0 < int (length (tag num wt)) + int (length rest)"
    using tag_nonempty [of num wt] by (cases "tag num wt") simp_all
  then have pos: "0 < len ?d" using assms(1) by (simp add: len_eq)
  have rv: "readVarint ?d 0 0 (0::uint64) = Inr (push_bit 3 num OR wt, int (length (tag num wt)))"
    using tag_read [of "[]" num wt rest] assms(1) by simp
  have u: "uint wt = 0 \<longleftrightarrow> wt = 0" "uint wt = 1 \<longleftrightarrow> wt = 1" "uint wt = 2 \<longleftrightarrow> wt = 2"
    "uint wt = 3 \<longleftrightarrow> wt = 3" "uint wt = 4 \<longleftrightarrow> wt = 4" "uint wt = 5 \<longleftrightarrow> wt = 5"
    by (simp_all add: word_uint_eq_iff)
  show ?thesis
    unfolding skipHeader_after_tag [OF pos rv] wire_type_of_tag [OF assms(2)] Let_def u ..
qed


lemma sint_of_nat64:
  assumes "n < 2 ^ 63"
  shows "sint (of_nat n :: uint64) = int n"
proof -
  have "sint (word_of_int (int n) :: uint64) = signed_take_bit 63 (int n)"
    by (simp only: sint_sbintrunc') simp
  also have "\<dots> = int n"
    using assms by (intro signed_take_bit_int_eq_self) simp_all
  finally show ?thesis by simp
qed

lemma wire_field_starts:
  "wire_field num f \<Longrightarrow> \<exists>wt rest. f = tag num wt @ rest \<and> wt < 8 \<and> wt \<noteq> 4"
  "wire_fields fs \<Longrightarrow> True"
proof (induction rule: wire_field_wire_fields.inducts)
  case (varint_field num v)
  show ?case by (intro exI [of _ 0] exI [of _ "varint v"]) simp
next
  case (fixed64_field num bs)
  show ?case by (intro exI [of _ 1] exI [of _ bs]) simp
next
  case (bytes_field num bs)
  show ?case by (intro exI [of _ 2] exI [of _ "varint (of_nat (length bs)) @ bs"]) simp
next
  case (group_field num body)
  show ?case by (intro exI [of _ 3] exI [of _ "body @ tag num 4"]) simp
next
  case (fixed32_field num bs)
  show ?case by (intro exI [of _ 5] exI [of _ bs]) simp
qed simp_all

lemma skip_wire:
  "wire_field num u \<Longrightarrow>
     (\<forall>post. length (u @ post) < 2 ^ 63 \<longrightarrow> skipHeader (u @ post) = Inr (int (length u)))"
  "wire_fields body \<Longrightarrow>
     (\<forall>pre n post. length (pre @ body @ tag n 4 @ post) < 2 ^ 63 \<longrightarrow>
        skipGroup (pre @ body @ tag n 4 @ post) (int (length pre))
          = Inr (int (length pre + length body + length (tag n 4))))"
proof (induction rule: wire_field_wire_fields.inducts)
  case (varint_field num v)
  show ?case
  proof (intro allI impI)
    fix post assume b: "length ((tag num 0 @ varint v) @ post) < 2 ^ 63"
    then have b': "length (tag num 0 @ varint v @ post) < 2 ^ 63" by simp
    show "skipHeader ((tag num 0 @ varint v) @ post) = Inr (int (length (tag num 0 @ varint v)))"
      using skipHeader_tagged [OF b', simplified] skipVarint_varint [OF b']
      by (simp add: Let_def)
  qed
next
  case (fixed64_field num bs)
  show ?case
  proof (intro allI impI)
    fix post assume b: "length ((tag num 1 @ bs) @ post) < 2 ^ 63"
    then have b': "length (tag num 1 @ bs @ post) < 2 ^ 63" by simp
    have "int64 (int (length (tag num 1)) + 8) = int (length (tag num 1)) + 8"
      using b' fixed64_field by (intro int64_id) simp_all
    then show "skipHeader ((tag num 1 @ bs) @ post) = Inr (int (length (tag num 1 @ bs)))"
      using skipHeader_tagged [OF b', simplified] fixed64_field
      by (simp add: Let_def)
  qed
next
  case (bytes_field num bs)
  show ?case
  proof (intro allI impI)
    let ?v = "varint (of_nat (length bs))"
    fix post assume b: "length ((tag num 2 @ ?v @ bs) @ post) < 2 ^ 63"
    then have b': "length (tag num 2 @ ?v @ bs @ post) < 2 ^ 63" by simp
    then have lb: "length bs < 2 ^ 63" by simp
    have rv: "readVarint (tag num 2 @ ?v @ bs @ post) (int (length (tag num 2))) 0 (0::uint64)
        = Inr (of_nat (length bs), int (length (tag num 2) + length ?v))"
      using readVarint_varint0 [OF b', where ?'a = 64] by simp
    have "int64 (int (length (tag num 2) + length ?v) + int (length bs))
        = int (length (tag num 2) + length ?v) + int (length bs)"
      using b' by (intro int64_id) simp_all
    then show "skipHeader ((tag num 2 @ ?v @ bs) @ post) = Inr (int (length (tag num 2 @ ?v @ bs)))"
      using skipHeader_tagged [OF b', simplified]
      by (simp add: Let_def rv sint_of_nat64 [OF lb])
  qed
next
  case (group_field num body)
  show ?case
  proof (intro allI impI)
    fix post assume b: "length ((tag num 3 @ body @ tag num 4) @ post) < 2 ^ 63"
    then have b': "length (tag num 3 @ body @ tag num 4 @ post) < 2 ^ 63" by simp
    from group_field.IH b'
    have "skipGroup (tag num 3 @ body @ tag num 4 @ post) (int (length (tag num 3)))
        = Inr (int (length (tag num 3) + length body + length (tag num 4)))" by blast
    then show "skipHeader ((tag num 3 @ body @ tag num 4) @ post)
        = Inr (int (length (tag num 3 @ body @ tag num 4)))"
      using skipHeader_tagged [OF b', simplified]
      by (simp add: Let_def)
  qed
next
  case (fixed32_field num bs)
  show ?case
  proof (intro allI impI)
    fix post assume b: "length ((tag num 5 @ bs) @ post) < 2 ^ 63"
    then have b': "length (tag num 5 @ bs @ post) < 2 ^ 63" by simp
    have "int64 (int (length (tag num 5)) + 4) = int (length (tag num 5)) + 4"
      using b' fixed32_field by (intro int64_id) simp_all
    then show "skipHeader ((tag num 5 @ bs) @ post) = Inr (int (length (tag num 5 @ bs)))"
      using skipHeader_tagged [OF b', simplified] fixed32_field
      by (simp add: Let_def)
  qed
next
  case no_fields
  show ?case
  proof (intro allI impI)
    fix pre n post assume b: "length (pre @ [] @ tag n 4 @ post) < 2 ^ 63"
    then have b': "length (pre @ tag n 4 @ post) < 2 ^ 63" by simp
    show "skipGroup (pre @ [] @ tag n 4 @ post) (int (length pre))
        = Inr (int (length pre + length ([]::byte list) + length (tag n 4)))"
      using skipGroup_after_tag [OF tag_read [OF b']] wire_type_of_tag [of 4 n]
      by simp
  qed
next
  case (more_fields num f fs)
  show ?case
  proof (intro allI impI)
    fix pre n post assume b: "length (pre @ (f @ fs) @ tag n 4 @ post) < 2 ^ 63"
    let ?d = "pre @ (f @ fs) @ tag n 4 @ post"
    from wire_field_starts(1) [OF more_fields.hyps(1)] obtain wt rest where
      f: "f = tag num wt @ rest" and wt: "wt < 8" "wt \<noteq> 4" by blast
    have d1: "?d = pre @ tag num wt @ (rest @ fs @ tag n 4 @ post)" by (simp add: f)
    have rv: "readVarint ?d (int (length pre)) 0 (0::uint64)
        = Inr (push_bit 3 num OR wt, int (length pre + length (tag num wt)))"
      unfolding d1 by (rule tag_read) (use b in \<open>simp add: f\<close>)
    have ne: "uint ((push_bit 3 num OR wt) AND 7) \<noteq> 4"
      using wt by (simp add: wire_type_of_tag word_uint_eq_iff)
    have dr: "drop (nat (int (length pre))) ?d = f @ (fs @ tag n 4 @ post)" by simp
    have bf: "length (f @ (fs @ tag n 4 @ post)) < 2 ^ 63" using b by simp
    from more_fields.IH(1) bf
    have sk: "skipHeader (f @ (fs @ tag n 4 @ post)) = Inr (int (length f))" by blast
    have i64: "int64 (int (length pre) + int (length f)) = int (length (pre @ f))"
      using b by (simp add: int64_id)
    have d2: "?d = (pre @ f) @ fs @ tag n 4 @ post" by simp
    have b2: "length ((pre @ f) @ fs @ tag n 4 @ post) < 2 ^ 63" using b by simp
    from more_fields.IH(2) b2
    have g: "skipGroup ((pre @ f) @ fs @ tag n 4 @ post) (int (length (pre @ f)))
        = Inr (int (length (pre @ f) + length fs + length (tag n 4)))" by blast
    have "skipGroup ?d (int (length pre)) = skipGroup ?d (int (length (pre @ f)))"
      unfolding skipGroup_after_tag [OF rv] dr sk using ne by (simp add: i64)
    also have "\<dots> = Inr (int (length (pre @ f) + length fs + length (tag n 4)))"
      unfolding d2 by (rule g)
    finally show "skipGroup ?d (int (length pre))
        = Inr (int (length pre + length (f @ fs) + length (tag n 4)))"
      by (simp add: add.assoc)
  qed
qed

lemma Unmarshal_field_unknown:
  assumes "wire_field num u" and "7 \<le> num"
    and "length (pre @ u @ post) < 2 ^ 63"
  shows "Unmarshal_field (pre @ u @ post) m (int (length pre)) =
     Inr (m, int (length pre + length u))"
proof -
  let ?d = "pre @ u @ post"
  from wire_field_starts(1) [OF assms(1)] obtain wt rest where
    u: "u = tag num wt @ rest" and wt: "wt < 8" "wt \<noteq> 4" by blast
  have d1: "?d = pre @ tag num wt @ (rest @ post)" by (simp add: u)
  have rv: "readVarint ?d (int (length pre)) 0 (0::uint64)
      = Inr (push_bit 3 num OR wt, int (length pre + length (tag num wt)))"
    unfolding d1 by (rule tag_read) (use assms(3) in \<open>simp add: u\<close>)
  have num: "num < 2 ^ 29"
    using assms(1) by (cases rule: wire_field.cases) (simp_all add: field_number_def)
  have un: "uint num < 2 ^ 29" "7 \<le> uint num"
    using num assms(2) by (simp_all add: word_less_def word_le_def)
  have fn: "(ucast num :: int32) = word_of_int (uint num)" by simp
  have si: "sint (word_of_int (uint num) :: int32) = uint num"
  proof -
    have "sint (word_of_int (uint num) :: int32) = signed_take_bit 31 (uint num)"
      by (simp only: sint_sbintrunc') simp
    also have "\<dots> = uint num"
      using un by (intro signed_take_bit_int_eq_self) simp_all
    finally show ?thesis .
  qed
  have pos: "\<not> sint (ucast num :: int32) \<le> 0" using un unfolding fn si by simp
  have ne: "(ucast num :: int32) \<noteq> k" if "sint k < 7" for k
    using that un unfolding fn using si by auto
  have other: "(ucast num :: int32) \<noteq> 1" "(ucast num :: int32) \<noteq> 2" "(ucast num :: int32) \<noteq> 3"
    "(ucast num :: int32) \<noteq> 4" "(ucast num :: int32) \<noteq> 5" "(ucast num :: int32) \<noteq> 6"
    by (rule ne, simp)+
  have wt4: "uint wt \<noteq> 4" using wt by (simp add: word_uint_eq_iff)
  have dr: "drop (nat (int (length pre))) ?d = u @ post" by simp
  have sk: "skipHeader (u @ post) = Inr (int (length u))"
    using skip_wire(1) [OF assms(1)] assms(3) by simp
  have i64: "int64 (int (length pre) + int (length u)) = int (length pre + length u)"
    using assms(3) by (simp add: int64_id)
  have ld: "len ?d = int (length ?d)" using assms(3) by (rule len_eq)
  show ?thesis
    unfolding Unmarshal_field_after_tag [OF rv] Let_def wire_type_of_tag [OF wt(1)]
      number_of_tag [OF wt(1)] dr sk sum.case i64 ld
    using pos other wt4 by simp
qed

text \<open>
  The fields that \<^verbatim>\<open>Unmarshal\<close> reads or skips: the six it knows, and the bytes of one
  field of another number.
\<close>

fun accepted :: "field \<Rightarrow> bool" where
  "accepted (FUnknown u) = (\<exists>num. 7 \<le> num \<and> wire_field num u)"
| "accepted f = True"

lemma wire_field_nonempty: "wire_field num u \<Longrightarrow> u \<noteq> []"
  using wire_field_starts(1) [of num u] tag_nonempty by auto

lemma Unmarshal_field_accepted:
  assumes "accepted f" and "length (pre @ field_bytes f @ post) < 2 ^ 63"
  shows "Unmarshal_field (pre @ field_bytes f @ post) m (int (length pre)) =
     Inr (assign f m, int (length pre + length (field_bytes f)))"
proof (cases "known f")
  case True
  then show ?thesis using assms(2) by (rule Unmarshal_field_known [rotated])
next
  case False
  then obtain u where f: "f = FUnknown u" by (cases f) simp_all
  with assms(1) obtain num where "7 \<le> num" "wire_field num u" by auto
  from Unmarshal_field_unknown [OF this(2,1), of pre post m] assms(2) f
  show ?thesis by simp
qed

lemma field_bytes_nonempty: "accepted f \<Longrightarrow> field_bytes f \<noteq> []"
  by (cases f) (auto dest: wire_field_nonempty)

lemma wire_Nil: "wire [] = []"
  by (simp add: wire_def)

lemma wire_Cons: "wire (f # fs) = field_bytes f @ wire fs"
  by (simp add: wire_def)

lemma wire_append: "wire (fs @ gs) = wire fs @ wire gs"
  by (simp add: wire_def)

lemma Unmarshal_loop_end:
  assumes "length d < 2 ^ 63"
  shows "Unmarshal_loop d m (int (length d)) = Inr m"
  by (subst Unmarshal_loop.simps) (simp add: len_eq [OF assms])

lemma Unmarshal_loop_step:
  assumes "length d < 2 ^ 63" and "i < int (length d)"
    and "Unmarshal_field d m i = Inr (m', i')"
  shows "Unmarshal_loop d m i = Unmarshal_loop d m' i'"
  by (subst Unmarshal_loop.simps) (simp add: len_eq [OF assms(1)] assms(2,3))

lemma Unmarshal_loop_error:
  assumes "length d < 2 ^ 63" and "i < int (length d)"
    and "Unmarshal_field d m i = Inl e"
  shows "Unmarshal_loop d m i = Inl e"
  by (subst Unmarshal_loop.simps) (simp add: len_eq [OF assms(1)] assms(2,3))

lemma Unmarshal_loop_wire:
  assumes "\<forall>f \<in> set fs. accepted f" and "length (pre @ wire fs) < 2 ^ 63"
  shows "Unmarshal_loop (pre @ wire fs) m (int (length pre)) = Inr (fold assign fs m)"
  using assms
proof (induction fs arbitrary: pre m)
  case Nil
  then show ?case using Unmarshal_loop_end [of pre m] by (simp add: wire_Nil)
next
  case (Cons f fs)
  let ?d = "pre @ wire (f # fs)"
  have d: "?d = pre @ field_bytes f @ wire fs" by (simp add: wire_Cons)
  have d2: "?d = (pre @ field_bytes f) @ wire fs" by (simp add: wire_Cons)
  from Cons.prems have acc: "accepted f" and rest: "\<forall>f \<in> set fs. accepted f" by simp_all
  have b: "length (pre @ field_bytes f @ wire fs) < 2 ^ 63" using Cons.prems(2) unfolding d .
  have lt: "int (length pre) < int (length ?d)"
    using field_bytes_nonempty [OF acc] by (cases "field_bytes f") (simp_all add: d)
  have st: "Unmarshal_field ?d m (int (length pre)) =
      Inr (assign f m, int (length (pre @ field_bytes f)))"
    unfolding d using Unmarshal_field_accepted [OF acc b] by simp
  have "Unmarshal_loop ?d m (int (length pre)) =
      Unmarshal_loop ?d (assign f m) (int (length (pre @ field_bytes f)))"
    by (rule Unmarshal_loop_step [OF Cons.prems(2) lt st])
  also have "\<dots> = Inr (fold assign fs (assign f m))"
    unfolding d2 by (rule Cons.IH [OF rest]) (use Cons.prems(2) in \<open>simp add: wire_Cons\<close>)
  finally show ?case by simp
qed

lemma Unmarshal_wire:
  assumes "\<forall>f \<in> set fs. accepted f" and "length (wire fs) < 2 ^ 63"
  shows "Unmarshal m (wire fs) = Inr (fold assign fs m)"
  using Unmarshal_loop_wire [of fs "[]" m] assms by (simp add: Unmarshal_def)

lemma accepted_present: "\<forall>f \<in> set (present h). accepted f"
  by (auto simp: present_def)

lemma fold_assign_present: "fold assign (present h) zeroHeader = h"
  by (cases h) (simp add: present_def zeroHeader_def)


lemma length_wire_present:
  "length (wire (present h)) \<le> length (Uri h) + length (Status h) + 66"
  using length_varint_le [of "Seq h"] length_varint_le [of "scast (Type h)"]
    length_varint_le [of "word_of_int (len (Uri h))"] length_varint_le [of "scast (Gzip h)"]
    length_varint_le [of "scast (StatusCode h)"] length_varint_le [of "word_of_int (len (Status h))"]
  unfolding wire_present by simp

lemma fits:
  assumes "length (Uri h) + length (Status h) < 2 ^ 62"
  shows "length (wire (present h)) < 2 ^ 63"
  using length_wire_present [of h] assms by simp


lemma fold_assign_absent:
  "(\<forall>v. FSeq v \<notin> set fs) \<Longrightarrow> Seq (fold assign fs m) = Seq m"
  "(\<forall>v. FType v \<notin> set fs) \<Longrightarrow> Type (fold assign fs m) = Type m"
  "(\<forall>v. FUri v \<notin> set fs) \<Longrightarrow> Uri (fold assign fs m) = Uri m"
  "(\<forall>v. FGzip v \<notin> set fs) \<Longrightarrow> Gzip (fold assign fs m) = Gzip m"
  "(\<forall>v. FStatusCode v \<notin> set fs) \<Longrightarrow> StatusCode (fold assign fs m) = StatusCode m"
  "(\<forall>v. FStatus v \<notin> set fs) \<Longrightarrow> Status (fold assign fs m) = Status m"
proof (induction fs arbitrary: m)
  case Nil
  {
    case 1 show ?case by simp
  next
    case 2 show ?case by simp
  next
    case 3 show ?case by simp
  next
    case 4 show ?case by simp
  next
    case 5 show ?case by simp
  next
    case 6 show ?case by simp
  }
next
  case (Cons f fs)
  {
    case 1 then show ?case using Cons.IH(1) [of "assign f m"] by (cases f) auto
  next
    case 2 then show ?case using Cons.IH(2) [of "assign f m"] by (cases f) auto
  next
    case 3 then show ?case using Cons.IH(3) [of "assign f m"] by (cases f) auto
  next
    case 4 then show ?case using Cons.IH(4) [of "assign f m"] by (cases f) auto
  next
    case 5 then show ?case using Cons.IH(5) [of "assign f m"] by (cases f) auto
  next
    case 6 then show ?case using Cons.IH(6) [of "assign f m"] by (cases f) auto
  }
qed

section \<open>Claims about the codec of the header\<close>

text \<open>
  Claim C1. For every header whose two strings fit in memory (their lengths add up to
  less than \<open>2 ^ 62\<close>; a Go string is shorter by far), with any sequence number, any
  \<^verbatim>\<open>int32\<close> values, negative ones too, and any bytes in the strings: \<^verbatim>\<open>Marshal\<close> returns
  bytes, and \<^verbatim>\<open>Unmarshal\<close> of these bytes into a new header succeeds and gives the header
  back.
\<close>

theorem Unmarshal_Marshal:
  assumes "length (Uri h) + length (Status h) < 2 ^ 62"
  shows "\<exists>dAtA. Marshal h = Inr dAtA \<and> Unmarshal zeroHeader dAtA = Inr h"
proof -
  have b: "length (wire (present h)) < 2 ^ 63" by (rule fits [OF assms])
  have "Marshal h = Inr (wire (present h))" by (rule Marshal_wire [OF b])
  moreover have "Unmarshal zeroHeader (wire (present h)) = Inr h"
    using Unmarshal_wire [OF accepted_present b, of zeroHeader]
    by (simp add: fold_assign_present)
  ultimately show ?thesis by blast
qed

theorem Unmarshal_Marshal_witness:
  "length (Uri \<lparr>Seq = 7, Type = - 1, Uri = [47, 112, 105, 110, 103], Gzip = 0,
                StatusCode = 200, Status = [79, 75]\<rparr>)
     + length (Status \<lparr>Seq = 7, Type = - 1, Uri = [47, 112, 105, 110, 103], Gzip = 0,
                StatusCode = 200, Status = [79, 75]\<rparr>) < (2::nat) ^ 62
   \<and> Marshal \<lparr>Seq = 7, Type = - 1, Uri = [47, 112, 105, 110, 103], Gzip = 0,
                StatusCode = 200, Status = [79, 75]\<rparr>
       = Inr [8, 7, 16, 255, 255, 255, 255, 255, 255, 255, 255, 255, 1, 26, 5, 47,
              112, 105, 110, 103, 40, 200, 1, 50, 2, 79, 75]
   \<and> Unmarshal zeroHeader [8, 7, 16, 255, 255, 255, 255, 255, 255, 255, 255, 255, 1, 26, 5, 47,
              112, 105, 110, 103, 40, 200, 1, 50, 2, 79, 75]
       = Inr \<lparr>Seq = 7, Type = - 1, Uri = [47, 112, 105, 110, 103], Gzip = 0,
                StatusCode = 200, Status = [79, 75]\<rparr>"
proof -
  let ?h = "\<lparr>Seq = 7, Type = - 1, Uri = [47, 112, 105, 110, 103], Gzip = 0,
                StatusCode = 200, Status = [79, 75]\<rparr>"
  have b: "length (Uri ?h) + length (Status ?h) < (2::nat) ^ 62" by simp
  have w: "wire (present ?h) = [8, 7, 16, 255, 255, 255, 255, 255, 255, 255, 255, 255, 1, 26, 5, 47,
              112, 105, 110, 103, 40, 200, 1, 50, 2, 79, 75]" by code_simp
  have m: "Marshal ?h = Inr (wire (present ?h))" by (rule Marshal_wire [OF fits [OF b]])
  from Unmarshal_Marshal [OF b] m w b show ?thesis by simp
qed


text \<open>
  Claim C2. \<^verbatim>\<open>Marshal\<close> of the header with all six fields zero or empty returns no bytes.
  For every header (whose strings fit in memory), the bytes \<^verbatim>\<open>Marshal\<close> returns are the
  bytes of its six fields in the order of their numbers, and a field that is zero or
  empty contributes none. \<^verbatim>\<open>Unmarshal\<close> into a new header, of the bytes of any sequence of
  fields, leaves at zero every field of the header that is not among them.
\<close>

theorem zero_omission:
  "Marshal zeroHeader = Inr []
   \<and> (length (Uri h) + length (Status h) < 2 ^ 62 \<longrightarrow>
        Marshal h = Inr (
          (if Seq h \<noteq> 0 then 0x8 # varint (Seq h) else []) @
          (if Type h \<noteq> 0 then 0x10 # varint (scast (Type h)) else []) @
          (if Uri h \<noteq> [] then 0x1a # varint (word_of_int (len (Uri h))) @ Uri h else []) @
          (if Gzip h \<noteq> 0 then 0x20 # varint (scast (Gzip h)) else []) @
          (if StatusCode h \<noteq> 0 then 0x28 # varint (scast (StatusCode h)) else []) @
          (if Status h \<noteq> [] then 0x32 # varint (word_of_int (len (Status h))) @ Status h else [])))
   \<and> ((\<forall>f \<in> set fs. accepted f) \<and> length (wire fs) < 2 ^ 63 \<longrightarrow>
        (\<exists>h'. Unmarshal zeroHeader (wire fs) = Inr h'
          \<and> ((\<forall>v. FSeq v \<notin> set fs) \<longrightarrow> Seq h' = 0)
          \<and> ((\<forall>v. FType v \<notin> set fs) \<longrightarrow> Type h' = 0)
          \<and> ((\<forall>v. FUri v \<notin> set fs) \<longrightarrow> Uri h' = [])
          \<and> ((\<forall>v. FGzip v \<notin> set fs) \<longrightarrow> Gzip h' = 0)
          \<and> ((\<forall>v. FStatusCode v \<notin> set fs) \<longrightarrow> StatusCode h' = 0)
          \<and> ((\<forall>v. FStatus v \<notin> set fs) \<longrightarrow> Status h' = [])))"
proof (intro conjI impI)
  have "present zeroHeader = []" by (simp add: present_def zeroHeader_def)
  then show "Marshal zeroHeader = Inr []"
    using Marshal_wire [of zeroHeader] by (simp add: wire_Nil)
next
  assume "length (Uri h) + length (Status h) < 2 ^ 62"
  from Marshal_wire [OF fits [OF this]]
  show "Marshal h = Inr (
          (if Seq h \<noteq> 0 then 0x8 # varint (Seq h) else []) @
          (if Type h \<noteq> 0 then 0x10 # varint (scast (Type h)) else []) @
          (if Uri h \<noteq> [] then 0x1a # varint (word_of_int (len (Uri h))) @ Uri h else []) @
          (if Gzip h \<noteq> 0 then 0x20 # varint (scast (Gzip h)) else []) @
          (if StatusCode h \<noteq> 0 then 0x28 # varint (scast (StatusCode h)) else []) @
          (if Status h \<noteq> [] then 0x32 # varint (word_of_int (len (Status h))) @ Status h else []))"
    unfolding wire_present .
next
  assume a: "(\<forall>f \<in> set fs. accepted f) \<and> length (wire fs) < 2 ^ 63"
  show "\<exists>h'. Unmarshal zeroHeader (wire fs) = Inr h'
          \<and> ((\<forall>v. FSeq v \<notin> set fs) \<longrightarrow> Seq h' = 0)
          \<and> ((\<forall>v. FType v \<notin> set fs) \<longrightarrow> Type h' = 0)
          \<and> ((\<forall>v. FUri v \<notin> set fs) \<longrightarrow> Uri h' = [])
          \<and> ((\<forall>v. FGzip v \<notin> set fs) \<longrightarrow> Gzip h' = 0)
          \<and> ((\<forall>v. FStatusCode v \<notin> set fs) \<longrightarrow> StatusCode h' = 0)
          \<and> ((\<forall>v. FStatus v \<notin> set fs) \<longrightarrow> Status h' = [])"
    using a fold_assign_absent [of fs zeroHeader]
    unfolding Unmarshal_wire [of fs zeroHeader, OF conjunct1 [OF a] conjunct2 [OF a]]
    by (intro exI [of _ "fold assign fs zeroHeader"]) (simp add: zeroHeader_def)
qed

theorem zero_omission_witness:
  "Marshal \<lparr>Seq = 7, Type = 1, Uri = [47, 112, 105, 110, 103], Gzip = 0,
            StatusCode = 200, Status = [79, 75]\<rparr>
     = Inr [8, 7, 16, 1, 26, 5, 47, 112, 105, 110, 103, 40, 200, 1, 50, 2, 79, 75]
   \<and> (\<exists>h'. Unmarshal zeroHeader [8, 7, 50, 2, 79, 75] = Inr h'
        \<and> Type h' = 0 \<and> Uri h' = [] \<and> Gzip h' = 0 \<and> StatusCode h' = 0)"
proof -
  let ?h = "\<lparr>Seq = 7, Type = 1, Uri = [47, 112, 105, 110, 103], Gzip = 0,
            StatusCode = 200, Status = [79, 75]\<rparr>"
  let ?fs = "[FSeq 7, FStatus [79, 75]]"
  have 1: "length (Uri ?h) + length (Status ?h) < (2::nat) ^ 62" by simp
  have 2: "(\<forall>f \<in> set ?fs. accepted f) \<and> length (wire ?fs) < 2 ^ 63"
    using length_varint_le [of 7] length_varint_le [of "word_of_int (len [79, 75 :: byte])"]
    by (simp add: wire_def)
  have w: "wire ?fs = [8, 7, 50, 2, 79, 75]" by code_simp
  have e: "(if Seq ?h \<noteq> 0 then 0x8 # varint (Seq ?h) else []) @
          (if Type ?h \<noteq> 0 then 0x10 # varint (scast (Type ?h)) else []) @
          (if Uri ?h \<noteq> [] then 0x1a # varint (word_of_int (len (Uri ?h))) @ Uri ?h else []) @
          (if Gzip ?h \<noteq> 0 then 0x20 # varint (scast (Gzip ?h)) else []) @
          (if StatusCode ?h \<noteq> 0 then 0x28 # varint (scast (StatusCode ?h)) else []) @
          (if Status ?h \<noteq> [] then 0x32 # varint (word_of_int (len (Status ?h))) @ Status ?h else [])
        = [8, 7, 16, 1, 26, 5, 47, 112, 105, 110, 103, 40, 200, 1, 50, 2, 79, 75]"
    by code_simp
  from zero_omission [of ?h ?fs] 1 2 show ?thesis
    unfolding w e by auto
qed

text \<open>
  Claim C4. Take the bytes that \<^verbatim>\<open>Marshal\<close> returns for a header, and the bytes of one
  more field of a number from 7 on (a valid number, below \<open>2 ^ 29\<close>), of wire type 0, 1,
  2, 3 or 5, put at the end, at the start or between two fields (all of it fitting in
  memory). \<^verbatim>\<open>Unmarshal\<close> of these bytes into a new
  header succeeds and gives the header back: the field is skipped.
\<close>

theorem unknown_field_skipped:
  assumes "length (Uri h) + length (Status h) + length u < 2 ^ 62"
    and "wire_field num u" and "7 \<le> num"
    and "present h = fs1 @ fs2"
  shows "Marshal h = Inr (wire fs1 @ wire fs2)
    \<and> Unmarshal zeroHeader (wire fs1 @ u @ wire fs2) = Inr h"
proof -
  have b: "length (wire (present h)) \<le> length (Uri h) + length (Status h) + 66"
    by (rule length_wire_present)
  from assms(1) have "length (Uri h) + length (Status h) < 2 ^ 62" by simp
  then have m: "Marshal h = Inr (wire (present h))" by (intro Marshal_wire fits)
  let ?fs = "fs1 @ [FUnknown u] @ fs2"
  have w: "wire ?fs = wire fs1 @ u @ wire fs2" by (simp add: wire_def)
  have acc: "\<forall>f \<in> set ?fs. accepted f"
    using accepted_present [of h] assms(2,3,4) by auto
  have "length (wire ?fs) = length (wire (present h)) + length u"
    by (simp add: wire_def assms(4))
  then have len: "length (wire ?fs) < 2 ^ 63"
    using b assms(1) by simp
  have "fold assign ?fs zeroHeader = fold assign (present h) zeroHeader"
    by (simp add: assms(4))
  then have "Unmarshal zeroHeader (wire ?fs) = Inr h"
    using Unmarshal_wire [OF acc len, of zeroHeader] by (simp add: fold_assign_present)
  then have "Unmarshal zeroHeader (wire fs1 @ u @ wire fs2) = Inr h"
    unfolding w .
  with m show ?thesis by (simp add: assms(4) wire_append)
qed

theorem unknown_field_skipped_witness:
  "wire_field 7 (tag 7 3 @ ((tag 1 0 @ varint 5) @ []) @ tag 7 4)
   \<and> tag 7 3 @ ((tag 1 0 @ varint 5) @ []) @ tag 7 4 = [59, 8, 5, 60]
   \<and> Marshal \<lparr>Seq = 7, Type = 0, Uri = [], Gzip = 0, StatusCode = 0, Status = [79, 75]\<rparr>
       = Inr [8, 7, 50, 2, 79, 75]
   \<and> Unmarshal zeroHeader [8, 7, 59, 8, 5, 60, 50, 2, 79, 75]
       = Inr \<lparr>Seq = 7, Type = 0, Uri = [], Gzip = 0, StatusCode = 0, Status = [79, 75]\<rparr>"
proof -
  let ?h = "\<lparr>Seq = 7, Type = 0, Uri = [], Gzip = 0, StatusCode = 0, Status = [79, 75]\<rparr>"
  let ?u = "tag 7 3 @ ((tag 1 0 @ varint 5) @ []) @ tag 7 4"
  have "wire_field 1 (tag 1 0 @ varint 5)"
    by (rule varint_field) (simp add: field_number_def)
  then have "wire_fields ((tag 1 0 @ varint 5) @ [])"
    using no_fields by (rule more_fields)
  then have 2: "wire_field 7 ?u"
    by (intro group_field) (simp_all add: field_number_def)
  have u: "?u = [59, 8, 5, 60]" by code_simp
  have 1: "length (Uri ?h) + length (Status ?h) + length ?u < (2::nat) ^ 62"
    unfolding u by simp
  have 4: "present ?h = [FSeq 7] @ [FStatus [79, 75]]" by (simp add: present_def)
  have w1: "wire [FSeq 7] = [8, 7]" by code_simp
  have w2: "wire [FStatus [79, 75]] = [50, 2, 79, 75]" by code_simp
  from unknown_field_skipped [OF 1 2 _ 4] 2 show ?thesis
    unfolding u w1 w2 by simp
qed

text \<open>
  A terminated varint: bytes with the high bit set, then one byte with the high bit
  clear. Its value, from a shift on: the low seven bits of each byte, seven bits further
  to the left for each byte, in a word of the width of the accumulator.
\<close>

definition terminated :: "byte list \<Rightarrow> bool" where
  "terminated bs \<longleftrightarrow> bs \<noteq> [] \<and> (\<forall>b \<in> set (butlast bs). 0x80 \<le> b) \<and> last bs < 0x80"

fun varint_value :: "byte list \<Rightarrow> nat \<Rightarrow> 'a::len word" where
  "varint_value [] s = 0"
| "varint_value (b # bs) s = push_bit s (ucast b AND 0x7F) OR varint_value bs (s + 7)"

lemma readVarint_terminated:
  fixes acc :: "'a::len word"
  assumes "terminated bs" and "s + 7 * (length bs - 1) < 64"
    and "length (pre @ bs @ post) < 2 ^ 63"
  shows "readVarint (pre @ bs @ post) (int (length pre)) s acc =
         Inr (acc OR varint_value bs s, int (length pre + length bs))"
  using assms
proof (induction bs arbitrary: pre s acc)
  case Nil
  then show ?case by (simp add: terminated_def)
next
  case (Cons b bs)
  let ?d = "pre @ (b # bs) @ post"
  have n: "length pre < length ?d" by simp
  have bb: "?d ! length pre = b" by (simp add: nth_append)
  from Cons.prems(2) have s: "s < 64" by simp
  show ?case
  proof (cases "bs = []")
    case True
    with Cons.prems(1) have "b < 0x80" by (simp add: terminated_def)
    with readVarint_step_last [OF Cons.prems(3) n s, of acc] bb True
    show ?thesis by simp
  next
    case False
    with Cons.prems(1) have hi: "\<not> b < 0x80" and t: "terminated bs"
      by (auto simp: terminated_def not_less)
    from False Cons.prems(2) have s7: "s + 7 + 7 * (length bs - 1) < 64"
      by (cases bs) simp_all
    have d': "?d = (pre @ [b]) @ bs @ post" by simp
    have len': "length ((pre @ [b]) @ bs @ post) < 2 ^ 63" using Cons.prems(3) by simp
    have "readVarint ?d (int (length pre)) s acc =
        readVarint ?d (int (length pre + 1)) (s + 7) (acc OR push_bit s (ucast (?d ! length pre) AND 0x7F))"
      by (rule readVarint_step_cont [OF Cons.prems(3) n s]) (simp add: bb hi)
    also have "\<dots> = readVarint ((pre @ [b]) @ bs @ post) (int (length (pre @ [b]))) (s + 7)
        (acc OR push_bit s (ucast b AND 0x7F))"
      unfolding bb d' [symmetric] by simp
    also note Cons.IH [OF t s7 len']
    finally show ?thesis by (simp add: or.assoc)
  qed
qed

lemma varint_value_low_bits:
  "(varint_value bs s :: int32) = ucast (varint_value bs s :: uint64)"
proof (induction bs arbitrary: s)
  case Nil
  show ?case by simp
next
  case (Cons b bs)
  have "(push_bit s (ucast b AND 0x7F) :: int32) = ucast (push_bit s (ucast b AND 0x7F) :: uint64)"
    unfolding mask7 by (rule bit_word_eqI) (auto simp: bit_simps)
  moreover have "(ucast (x OR y :: uint64) :: int32) = ucast x OR ucast y" for x y
    by (rule bit_word_eqI) (auto simp: bit_simps)
  ultimately show ?case by (simp add: Cons.IH)
qed

lemma Unmarshal_single:
  assumes "length d < 2 ^ 63" and "d \<noteq> []"
    and "Unmarshal_field d m 0 = Inr (m', int (length d))"
  shows "Unmarshal m d = Inr m'"
proof -
  have "Unmarshal_loop d m 0 = Unmarshal_loop d m' (int (length d))"
    using assms(2) by (intro Unmarshal_loop_step [OF assms(1) _ assms(3)]) simp
  then show ?thesis by (simp add: Unmarshal_def Unmarshal_loop_end [OF assms(1)])
qed


lemma Unmarshal_int32_field:
  assumes "terminated bs" and "length bs \<le> 10" and "t < 0x80"
    and "Unmarshal_field (t # bs) m 0 =
      (case readVarint (t # bs) 1 0 (0::int32) of Inl e \<Rightarrow> Inl e | Inr (v, i) \<Rightarrow> Inr (f v, i))"
  shows "Unmarshal m (t # bs) = Inr (f (ucast (varint_value bs 0 :: uint64)))"
proof -
  have len: "length ([t] @ bs @ []) < 2 ^ 63" using assms(2) by simp
  have sh: "0 + 7 * (length bs - 1) < 64" using assms(2) by simp
  from readVarint_terminated [OF assms(1) sh len, of "0::int32"]
  have "readVarint (t # bs) 1 0 (0::int32) = Inr (varint_value bs 0, int (length (t # bs)))"
    by simp
  with assms(4) have "Unmarshal_field (t # bs) m 0 =
      Inr (f (ucast (varint_value bs 0 :: uint64)), int (length (t # bs)))"
    by (simp add: varint_value_low_bits)
  then show ?thesis using len by (intro Unmarshal_single) simp_all
qed

text \<open>
  Claim C10. The value bytes are any terminated varint of at most ten bytes;
  \<open>varint_value bs 0\<close>, as a \<^verbatim>\<open>uint64\<close>, is the value that the loop of \<^verbatim>\<open>Unmarshal\<close> decodes
  from them into a \<^verbatim>\<open>uint64\<close>. For each of the fields 2, 4 and 5, \<^verbatim>\<open>Unmarshal\<close> of the tag
  and these bytes succeeds and stores the low 32 bits of that value: the bits from
  position 32 on are dropped and no error is returned.
\<close>

theorem int32_field_low_bits:
  assumes "terminated bs" and "length bs \<le> 10"
  shows "readVarint bs 0 0 (0::uint64) = Inr (varint_value bs 0, int (length bs))
    \<and> Unmarshal m (0x10 # bs) = Inr (m\<lparr>Type := ucast (varint_value bs 0 :: uint64)\<rparr>)
    \<and> Unmarshal m (0x20 # bs) = Inr (m\<lparr>Gzip := ucast (varint_value bs 0 :: uint64)\<rparr>)
    \<and> Unmarshal m (0x28 # bs) = Inr (m\<lparr>StatusCode := ucast (varint_value bs 0 :: uint64)\<rparr>)"
proof -
  have len: "length ([] @ bs @ []) < 2 ^ 63" using assms(2) by simp
  have sh: "0 + 7 * (length bs - 1) < 64" using assms(2) by simp
  have b: "length (t # bs) < 2 ^ 63" for t :: byte using assms(2) by simp
  have 0: "readVarint bs 0 0 (0::uint64) = Inr (varint_value bs 0, int (length bs))"
    using readVarint_terminated [OF assms(1) sh len, of "0::uint64"] by simp
  have 1: "Unmarshal m (0x10 # bs) = Inr (m\<lparr>Type := ucast (varint_value bs 0 :: uint64)\<rparr>)"
    by (rule Unmarshal_int32_field [OF assms, where f = "\<lambda>v. m\<lparr>Type := v\<rparr>"], simp)
      (simp add: Unmarshal_field_at_tag [of "0x10 # bs" 0 "0x10", OF b, simplified])
  have 2: "Unmarshal m (0x20 # bs) = Inr (m\<lparr>Gzip := ucast (varint_value bs 0 :: uint64)\<rparr>)"
    by (rule Unmarshal_int32_field [OF assms, where f = "\<lambda>v. m\<lparr>Gzip := v\<rparr>"], simp)
      (simp add: Unmarshal_field_at_tag [of "0x20 # bs" 0 "0x20", OF b, simplified])
  have 3: "Unmarshal m (0x28 # bs) = Inr (m\<lparr>StatusCode := ucast (varint_value bs 0 :: uint64)\<rparr>)"
    by (rule Unmarshal_int32_field [OF assms, where f = "\<lambda>v. m\<lparr>StatusCode := v\<rparr>"], simp)
      (simp add: Unmarshal_field_at_tag [of "0x28 # bs" 0 "0x28", OF b, simplified])
  from 0 1 2 3 show ?thesis by simp
qed

theorem int32_field_low_bits_witness:
  "terminated [0x85, 0x80, 0x80, 0x80, 0x10]
   \<and> length [0x85, 0x80, 0x80, 0x80, 0x10 :: byte] \<le> 10
   \<and> (varint_value [0x85, 0x80, 0x80, 0x80, 0x10] 0 :: uint64) = 2 ^ 32 + 5
   \<and> Unmarshal zeroHeader [0x10, 0x85, 0x80, 0x80, 0x80, 0x10] = Inr (zeroHeader\<lparr>Type := 5\<rparr>)
   \<and> Unmarshal zeroHeader [0x20, 0x85, 0x80, 0x80, 0x80, 0x10] = Inr (zeroHeader\<lparr>Gzip := 5\<rparr>)
   \<and> Unmarshal zeroHeader [0x28, 0x85, 0x80, 0x80, 0x80, 0x10] = Inr (zeroHeader\<lparr>StatusCode := 5\<rparr>)"
proof -
  let ?bs = "[0x85, 0x80, 0x80, 0x80, 0x10] :: byte list"
  have t: "terminated ?bs" by (simp add: terminated_def)
  have l: "length ?bs \<le> 10" by simp
  have v: "(varint_value ?bs 0 :: uint64) = 2 ^ 32 + 5" by code_simp
  have u: "(ucast (2 ^ 32 + 5 :: uint64) :: int32) = 5" by simp
  from int32_field_low_bits [OF t l, of zeroHeader] t l v u show ?thesis by simp
qed

lemma readVarint_overflow: "64 \<le> s \<Longrightarrow> readVarint d i s acc = Inl ErrIntOverflowHeader"
  by (subst readVarint.simps) simp

lemma readVarint_eof:
  "s < 64 \<Longrightarrow> length d < 2 ^ 63 \<Longrightarrow> length d \<le> n \<Longrightarrow>
   readVarint d (int n) s acc = Inl ErrUnexpectedEOF"
  by (subst readVarint.simps) (simp add: len_eq)

lemma shift_step: "n \<le> 9 \<Longrightarrow> 7 * (10 - Suc n) + 7 = 7 * (10 - n)" and
  shift_ok: "n \<le> 9 \<Longrightarrow> 7 * (10 - Suc n) < (64::nat)"
  by simp_all

lemma all_from: "(\<forall>j. P (i + j)) \<longleftrightarrow> P i \<and> (\<forall>j. P (i + 1 + j))" for i :: nat
proof
  assume a: "\<forall>j. P (i + j)"
  then have "P (i + 0)" by blast
  moreover have "P (i + 1 + j)" for j using a [rule_format, of "Suc j"] by simp
  ultimately show "P i \<and> (\<forall>j. P (i + 1 + j))" by simp
next
  assume a: "P i \<and> (\<forall>j. P (i + 1 + j))"
  show "\<forall>j. P (i + j)"
  proof
    fix j show "P (i + j)"
    proof (cases j)
      case 0
      with a show ?thesis by simp
    next
      case (Suc k)
      with a [THEN conjunct2, rule_format, of k] show ?thesis by simp
    qed
  qed
qed

lemma readVarint_classify:
  fixes acc :: "'a::len word"
  assumes "length d < 2 ^ 63" and "n \<le> 10"
  shows "(readVarint d (int i) (7 * (10 - n)) acc = Inl ErrIntOverflowHeader
           \<longleftrightarrow> (\<forall>j<n. i + j < length d \<and> 0x80 \<le> d ! (i + j)))
       \<and> (readVarint d (int i) (7 * (10 - n)) acc = Inl ErrUnexpectedEOF
           \<longleftrightarrow> length d - i < n \<and> (\<forall>j. i + j < length d \<longrightarrow> 0x80 \<le> d ! (i + j)))
       \<and> ((\<exists>v k. readVarint d (int i) (7 * (10 - n)) acc = Inr (v, k))
           \<longleftrightarrow> (\<exists>k<n. i + k < length d \<and> d ! (i + k) < 0x80 \<and> (\<forall>j<k. 0x80 \<le> d ! (i + j))))"
  using assms(2)
proof (induction n arbitrary: i acc)
  case 0
  show ?case by (simp add: readVarint_overflow)
next
  case (Suc n)
  then have n9: "n \<le> 9" by simp
  note s = shift_ok [OF n9]
  show ?case
  proof (cases "i < length d")
    case False
    then have e: "readVarint d (int i) (7 * (10 - Suc n)) acc = Inl ErrUnexpectedEOF"
      using assms(1) by (intro readVarint_eof [OF s]) simp_all
    from False have "\<not> (\<forall>j<Suc n. i + j < length d \<and> 0x80 \<le> d ! (i + j))"
      by (auto intro: exI [of _ 0])
    moreover from False have "length d - i < Suc n \<and> (\<forall>j. i + j < length d \<longrightarrow> 0x80 \<le> d ! (i + j))"
      by simp
    moreover from False have "\<not> (\<exists>k<Suc n. i + k < length d \<and> d ! (i + k) < 0x80 \<and> (\<forall>j<k. 0x80 \<le> d ! (i + j)))"
      by simp
    ultimately show ?thesis unfolding e by simp
  next
    case True
    show ?thesis
    proof (cases "d ! i < 0x80")
      case lo: True
      have e: "readVarint d (int i) (7 * (10 - Suc n)) acc =
          Inr (acc OR push_bit (7 * (10 - Suc n)) (ucast (d ! i) AND 0x7F), int i + 1)"
        by (rule readVarint_step_last [OF assms(1) True s lo])
      from lo have "\<not> (\<forall>j<Suc n. i + j < length d \<and> 0x80 \<le> d ! (i + j))"
        by (auto intro!: exI [of _ 0] simp: not_le)
      moreover from lo True have "\<not> (\<forall>j. i + j < length d \<longrightarrow> 0x80 \<le> d ! (i + j))"
        by (auto intro!: exI [of _ 0] simp: not_le)
      moreover from lo True have "\<exists>k<Suc n. i + k < length d \<and> d ! (i + k) < 0x80 \<and> (\<forall>j<k. 0x80 \<le> d ! (i + j))"
        by (intro exI [of _ 0]) simp
      ultimately show ?thesis unfolding e by simp
    next
      case hi: False
      then have hi': "0x80 \<le> d ! i" by (simp add: not_less)
      let ?acc = "acc OR push_bit (7 * (10 - Suc n)) (ucast (d ! i) AND 0x7F)"
      have e: "readVarint d (int i) (7 * (10 - Suc n)) acc =
          readVarint d (int (i + 1)) (7 * (10 - n)) ?acc"
        using readVarint_step_cont [OF assms(1) True s hi, of acc]
        unfolding shift_step [OF n9] .
      from Suc.prems have "n \<le> 10" by simp
      note IH = Suc.IH [OF this, of "i + 1" ?acc]
      have 1: "(\<forall>j<Suc n. i + j < length d \<and> 0x80 \<le> d ! (i + j))
          \<longleftrightarrow> (\<forall>j<n. i + 1 + j < length d \<and> 0x80 \<le> d ! (i + 1 + j))"
        using True hi' by (simp add: All_less_Suc2)
      have 2: "(length d - i < Suc n \<and> (\<forall>j. i + j < length d \<longrightarrow> 0x80 \<le> d ! (i + j)))
          \<longleftrightarrow> (length d - (i + 1) < n \<and> (\<forall>j. i + 1 + j < length d \<longrightarrow> 0x80 \<le> d ! (i + 1 + j)))"
        using True hi' all_from [of "\<lambda>k. k < length d \<longrightarrow> 0x80 \<le> d ! k" i] by auto
      have 3: "(\<exists>k<Suc n. i + k < length d \<and> d ! (i + k) < 0x80 \<and> (\<forall>j<k. 0x80 \<le> d ! (i + j)))
          \<longleftrightarrow> (\<exists>k<n. i + 1 + k < length d \<and> d ! (i + 1 + k) < 0x80 \<and> (\<forall>j<k. 0x80 \<le> d ! (i + 1 + j)))"
        using hi hi' by (simp add: Ex_less_Suc2 All_less_Suc2)
      show ?thesis unfolding e 1 2 3 by (rule IH)
    qed
  qed
qed


lemma Unmarshal_tag_error:
  assumes "length d < 2 ^ 63" and "d \<noteq> []" and "readVarint d 0 0 (0::uint64) = Inl e"
  shows "Unmarshal m d = Inl e"
proof -
  have "Unmarshal_field d m 0 = Inl e" by (simp add: Unmarshal_field_def assms(3))
  then show ?thesis
    unfolding Unmarshal_def using assms(2)
    by (intro Unmarshal_loop_error [OF assms(1)]) simp_all
qed

text \<open>
  Claim C5. \<open>readVarint\<close> is the loop that \<^verbatim>\<open>Unmarshal\<close> and \<^verbatim>\<open>skipHeader\<close> run for every
  varint, here from the shift 0 at an index of the buffer. It fails with
  \<^verbatim>\<open>ErrIntOverflowHeader\<close> exactly when the ten bytes from the index all have the high bit
  set: ten groups of seven bits have been consumed, the shift has reached 70, and no
  further byte is read. It fails with \<^verbatim>\<open>io.ErrUnexpectedEOF\<close> exactly when the buffer ends
  before that: fewer than ten bytes are left, and all of them have the high bit set. It
  returns a value exactly when one of the first ten bytes has the high bit clear, so a
  terminated varint of at most ten bytes never gives the overflow error. The first
  varint that \<^verbatim>\<open>Unmarshal\<close> reads is the tag, and \<^verbatim>\<open>Unmarshal\<close> returns these errors for it.
\<close>

theorem varint_decoding_errors:
  fixes acc :: "'a::len word"
  assumes "length d < 2 ^ 63"
  shows "(readVarint d (int i) 0 acc = Inl ErrIntOverflowHeader
           \<longleftrightarrow> (\<forall>j<10. i + j < length d \<and> 0x80 \<le> d ! (i + j)))
       \<and> (readVarint d (int i) 0 acc = Inl ErrUnexpectedEOF
           \<longleftrightarrow> length d - i < 10 \<and> (\<forall>j. i + j < length d \<longrightarrow> 0x80 \<le> d ! (i + j)))
       \<and> ((\<exists>v k. readVarint d (int i) 0 acc = Inr (v, k))
           \<longleftrightarrow> (\<exists>k<10. i + k < length d \<and> d ! (i + k) < 0x80 \<and> (\<forall>j<k. 0x80 \<le> d ! (i + j))))
       \<and> ((\<forall>j<10. j < length d \<and> 0x80 \<le> d ! j) \<longrightarrow> Unmarshal m d = Inl ErrIntOverflowHeader)
       \<and> (d \<noteq> [] \<and> length d < 10 \<and> (\<forall>j<length d. 0x80 \<le> d ! j)
            \<longrightarrow> Unmarshal m d = Inl ErrUnexpectedEOF)"
proof -
  note c = readVarint_classify [OF assms, of 10, simplified]
  have 1: "Unmarshal m d = Inl ErrIntOverflowHeader"
    if a: "\<forall>j<10. j < length d \<and> 0x80 \<le> d ! j"
  proof -
    from a have "0 < length d" by (elim allE [of _ 0]) simp
    then have "d \<noteq> []" by simp
    moreover from a have "readVarint d 0 0 (0::uint64) = Inl ErrIntOverflowHeader"
      using c [of 0 "0::uint64"] by simp
    ultimately show ?thesis by (intro Unmarshal_tag_error [OF assms])
  qed
  have 2: "Unmarshal m d = Inl ErrUnexpectedEOF"
    if a: "d \<noteq> [] \<and> length d < 10 \<and> (\<forall>j<length d. 0x80 \<le> d ! j)"
  proof -
    from a have "readVarint d 0 0 (0::uint64) = Inl ErrUnexpectedEOF"
      using c [of 0 "0::uint64"] by simp
    with a show ?thesis by (intro Unmarshal_tag_error [OF assms]) simp_all
  qed
  from c [of i acc] 1 2 show ?thesis by blast
qed

theorem varint_decoding_errors_witness:
  "length [0x80, 0x80, 0x80, 0x80, 0x80, 0x80, 0x80, 0x80, 0x80, 0x80, 0x00 :: byte] < 2 ^ 63
   \<and> readVarint [0x80, 0x80, 0x80, 0x80, 0x80, 0x80, 0x80, 0x80, 0x80, 0x80, 0x00] 0 0 (0::uint64)
       = Inl ErrIntOverflowHeader
   \<and> Unmarshal zeroHeader [0x80, 0x80, 0x80, 0x80, 0x80, 0x80, 0x80, 0x80, 0x80, 0x80, 0x00]
       = Inl ErrIntOverflowHeader
   \<and> readVarint [0x80, 0x80] 0 0 (0::uint64) = Inl ErrUnexpectedEOF
   \<and> Unmarshal zeroHeader [0x80, 0x80] = Inl ErrUnexpectedEOF
   \<and> (\<exists>v k. readVarint [0x80, 0x80, 0x80, 0x80, 0x80, 0x80, 0x80, 0x80, 0x80, 0x02] 0 0 (0::uint64)
        = Inr (v, k))"
proof -
  let ?d = "[0x80, 0x80, 0x80, 0x80, 0x80, 0x80, 0x80, 0x80, 0x80, 0x80, 0x00] :: byte list"
  let ?e = "[0x80, 0x80] :: byte list"
  let ?t = "[0x80, 0x80, 0x80, 0x80, 0x80, 0x80, 0x80, 0x80, 0x80, 0x02] :: byte list"
  have l: "length ?d < 2 ^ 63" "length ?e < 2 ^ 63" "length ?t < 2 ^ 63" by simp_all
  have a: "\<forall>j<10. j < length ?d \<and> 0x80 \<le> ?d ! j"
    by (simp add: eval_nat_numeral All_less_Suc)
  have b: "?e \<noteq> [] \<and> length ?e < 10 \<and> (\<forall>j<length ?e. 0x80 \<le> ?e ! j)"
    by (simp add: eval_nat_numeral All_less_Suc)
  have b': "length ?e - 0 < 10 \<and> (\<forall>j. 0 + j < length ?e \<longrightarrow> 0x80 \<le> ?e ! (0 + j))"
    by (simp add: eval_nat_numeral All_less_Suc)
  have c1: "?t ! 9 < 0x80" by simp
  have c2: "\<forall>j<9. 0x80 \<le> ?t ! (0 + j)" by (simp add: eval_nat_numeral All_less_Suc)
  have c: "\<exists>k<10. 0 + k < length ?t \<and> ?t ! (0 + k) < 0x80 \<and> (\<forall>j<k. 0x80 \<le> ?t ! (0 + j))"
    using c1 c2 by (intro exI [of _ 9]) simp
  from varint_decoding_errors [OF l(1), of 0 "0::uint64" zeroHeader] a
  have 1: "readVarint ?d 0 0 (0::uint64) = Inl ErrIntOverflowHeader"
    and 2: "Unmarshal zeroHeader ?d = Inl ErrIntOverflowHeader" by simp_all
  from varint_decoding_errors [OF l(2), of 0 "0::uint64" zeroHeader] b b'
  have 3: "readVarint ?e 0 0 (0::uint64) = Inl ErrUnexpectedEOF"
    and 4: "Unmarshal zeroHeader ?e = Inl ErrUnexpectedEOF" by simp_all
  from varint_decoding_errors [OF l(3), of 0 "0::uint64" zeroHeader] c
  have 5: "\<exists>v k. readVarint ?t 0 0 (0::uint64) = Inr (v, k)" by simp
  from l(1) 1 2 3 4 5 show ?thesis by simp
qed

lemma Unmarshal_loop_wire_more:
  assumes "\<forall>f \<in> set fs. accepted f" and "length (pre @ wire fs @ post) < 2 ^ 63"
  shows "Unmarshal_loop (pre @ wire fs @ post) m (int (length pre)) =
         Unmarshal_loop (pre @ wire fs @ post) (fold assign fs m) (int (length pre + length (wire fs)))"
  using assms
proof (induction fs arbitrary: pre m)
  case Nil
  then show ?case by (simp add: wire_Nil)
next
  case (Cons f fs)
  let ?d = "pre @ wire (f # fs) @ post"
  have d: "?d = pre @ field_bytes f @ (wire fs @ post)" by (simp add: wire_Cons)
  have d2: "?d = (pre @ field_bytes f) @ wire fs @ post" by (simp add: wire_Cons)
  from Cons.prems have acc: "accepted f" and rest: "\<forall>f \<in> set fs. accepted f" by simp_all
  have b: "length (pre @ field_bytes f @ (wire fs @ post)) < 2 ^ 63"
    using Cons.prems(2) unfolding d .
  have lt: "int (length pre) < int (length ?d)"
    using field_bytes_nonempty [OF acc] by (cases "field_bytes f") (simp_all add: d)
  have st: "Unmarshal_field ?d m (int (length pre)) =
      Inr (assign f m, int (length (pre @ field_bytes f)))"
    unfolding d using Unmarshal_field_accepted [OF acc b] by simp
  have "Unmarshal_loop ?d m (int (length pre)) =
      Unmarshal_loop ?d (assign f m) (int (length (pre @ field_bytes f)))"
    by (rule Unmarshal_loop_step [OF Cons.prems(2) lt st])
  also have "\<dots> = Unmarshal_loop ?d (fold assign fs (assign f m))
      (int (length (pre @ field_bytes f) + length (wire fs)))"
    unfolding d2 by (rule Cons.IH [OF rest]) (use Cons.prems(2) in \<open>simp add: wire_Cons\<close>)
  finally show ?case by (simp add: wire_Cons add.assoc)
qed

lemma readVarint_after_tag_truncated:
  assumes "length (pre @ t # take n (varint v)) < 2 ^ 63" and "n < length (varint v)"
  shows "readVarint (pre @ t # take n (varint v)) (int (length pre) + 1) 0 (0::'a::len word)
         = Inl ErrUnexpectedEOF"
  using readVarint_truncated0 [of "pre @ [t]" n v, where ?'a = 'a] assms
  by (simp add: add.commute)

lemma readString_truncated:
  assumes "length (pre @ t # varint (word_of_int (len s)) @ s) < 2 ^ 63"
    and "n < length (varint (word_of_int (len s) :: uint64) @ s)"
  shows "readString (pre @ t # take n (varint (word_of_int (len s)) @ s)) (int (length pre) + 1)
         = Inl ErrUnexpectedEOF"
proof (cases "n < length (varint (word_of_int (len s) :: uint64))")
  case True
  let ?v = "varint (word_of_int (len s) :: uint64)"
  have tk: "take n (?v @ s) = take n ?v" using True by simp
  have "length (pre @ t # take n ?v) < 2 ^ 63" using assms(1) by simp
  from readVarint_after_tag_truncated [OF this True, where ?'a = 64]
  show ?thesis unfolding tk readString_def by simp
next
  case False
  let ?v = "varint (word_of_int (len s) :: uint64)"
  let ?k = "n - length ?v"
  have tk: "take n (?v @ s) = ?v @ take ?k s" using False by simp
  have k: "?k < length s" using assms(2) False by simp
  let ?d = "pre @ t # ?v @ take ?k s"
  from assms(1) have ls: "length s < 2 ^ 63" by simp
  have bd: "length (pre @ t # ?v @ take ?k s) < 2 ^ 63" using assms(1) by simp
  have rv: "readVarint ?d (int (length pre) + 1) 0 (0::uint64) =
         Inr (word_of_int (len s), int (length pre) + 1 + int (length ?v))"
    using readVarint_after_tag [OF bd, where ?'a = 64] by simp
  have p: "int64 (int (length pre) + 1 + int (length ?v) + int (length s))
      = int (length pre) + 1 + int (length ?v) + int (length s)"
    using assms(1) by (intro int64_id) simp_all
  have ld: "len ?d = int (length ?d)" using bd by (rule len_eq)
  have gt: "int (length pre) + 1 + int (length ?v) + int (length s) > int (length ?d)"
    using k by simp
  have nn: "\<not> int (length s) < 0" by simp
  show ?thesis
    unfolding tk readString_def rv sum.case prod.case Let_def sint_len [OF ls] p ld
    by (simp only: gt nn if_False if_True)
qed

lemma take_wire_split:
  assumes "n < length (wire fs)"
  shows "\<exists>k r. k < length fs \<and> r < length (field_bytes (fs ! k)) \<and>
           take n (wire fs) = wire (take k fs) @ take r (field_bytes (fs ! k))"
  using assms
proof (induction fs arbitrary: n)
  case Nil
  then show ?case by (simp add: wire_Nil)
next
  case (Cons f fs)
  show ?case
  proof (cases "n < length (field_bytes f)")
    case True
    then show ?thesis
      by (intro exI [of _ 0] exI [of _ n]) (simp add: wire_Cons wire_Nil)
  next
    case False
    with Cons.prems have "n - length (field_bytes f) < length (wire fs)"
      by (simp add: wire_Cons)
    from Cons.IH [OF this] obtain k r where
      kr: "k < length fs" "r < length (field_bytes (fs ! k))"
        "take (n - length (field_bytes f)) (wire fs) = wire (take k fs) @ take r (field_bytes (fs ! k))"
      by blast
    with False show ?thesis
      by (intro exI [of _ "Suc k"] exI [of _ r]) (simp add: wire_Cons)
  qed
qed


lemma Unmarshal_field_Seq_truncated:
  assumes "length (pre @ 0x8 # take n (varint v)) < 2 ^ 63" and "n < length (varint v)"
  shows "Unmarshal_field (pre @ 0x8 # take n (varint v)) m (int (length pre)) = Inl ErrUnexpectedEOF"
proof -
  let ?d = "pre @ 0x8 # take n (varint v)"
  have 1: "length pre < length ?d" by simp
  have 2: "?d ! length pre = 0x8" by (simp add: nth_append)
  show ?thesis
    unfolding Unmarshal_field_at_tag [OF assms(1) 1 2, simplified]
    by (simp add: readVarint_after_tag_truncated [OF assms])
qed

lemma Unmarshal_field_Type_truncated:
  assumes "length (pre @ 0x10 # take n (varint v)) < 2 ^ 63" and "n < length (varint v)"
  shows "Unmarshal_field (pre @ 0x10 # take n (varint v)) m (int (length pre)) = Inl ErrUnexpectedEOF"
proof -
  let ?d = "pre @ 0x10 # take n (varint v)"
  have 1: "length pre < length ?d" by simp
  have 2: "?d ! length pre = 0x10" by (simp add: nth_append)
  show ?thesis
    unfolding Unmarshal_field_at_tag [OF assms(1) 1 2, simplified]
    by (simp add: readVarint_after_tag_truncated [OF assms])
qed

lemma Unmarshal_field_Uri_truncated:
  assumes "length (pre @ 0x1a # varint (word_of_int (len s)) @ s) < 2 ^ 63"
    and "n < length (varint (word_of_int (len s) :: uint64) @ s)"
  shows "Unmarshal_field (pre @ 0x1a # take n (varint (word_of_int (len s)) @ s)) m (int (length pre))
         = Inl ErrUnexpectedEOF"
proof -
  define q where "q = take n (varint (word_of_int (len s) :: uint64) @ s)"
  let ?d = "pre @ 0x1a # q"
  have "length q \<le> length (varint (word_of_int (len s) :: uint64) @ s)"
    unfolding q_def by simp
  then have 0: "length ?d < 2 ^ 63" using assms(1) by simp
  have 1: "length pre < length ?d" by simp
  have 2: "?d ! length pre = 0x1a" by (simp add: nth_append)
  have "Unmarshal_field ?d m (int (length pre)) = Inl ErrUnexpectedEOF"
    unfolding Unmarshal_field_at_tag [OF 0 1 2, simplified]
      readString_truncated [OF assms, folded q_def]
    by simp
  then show ?thesis unfolding q_def .
qed

lemma Unmarshal_field_Gzip_truncated:
  assumes "length (pre @ 0x20 # take n (varint v)) < 2 ^ 63" and "n < length (varint v)"
  shows "Unmarshal_field (pre @ 0x20 # take n (varint v)) m (int (length pre)) = Inl ErrUnexpectedEOF"
proof -
  let ?d = "pre @ 0x20 # take n (varint v)"
  have 1: "length pre < length ?d" by simp
  have 2: "?d ! length pre = 0x20" by (simp add: nth_append)
  show ?thesis
    unfolding Unmarshal_field_at_tag [OF assms(1) 1 2, simplified]
    by (simp add: readVarint_after_tag_truncated [OF assms])
qed

lemma Unmarshal_field_StatusCode_truncated:
  assumes "length (pre @ 0x28 # take n (varint v)) < 2 ^ 63" and "n < length (varint v)"
  shows "Unmarshal_field (pre @ 0x28 # take n (varint v)) m (int (length pre)) = Inl ErrUnexpectedEOF"
proof -
  let ?d = "pre @ 0x28 # take n (varint v)"
  have 1: "length pre < length ?d" by simp
  have 2: "?d ! length pre = 0x28" by (simp add: nth_append)
  show ?thesis
    unfolding Unmarshal_field_at_tag [OF assms(1) 1 2, simplified]
    by (simp add: readVarint_after_tag_truncated [OF assms])
qed

lemma Unmarshal_field_Status_truncated:
  assumes "length (pre @ 0x32 # varint (word_of_int (len s)) @ s) < 2 ^ 63"
    and "n < length (varint (word_of_int (len s) :: uint64) @ s)"
  shows "Unmarshal_field (pre @ 0x32 # take n (varint (word_of_int (len s)) @ s)) m (int (length pre))
         = Inl ErrUnexpectedEOF"
proof -
  define q where "q = take n (varint (word_of_int (len s) :: uint64) @ s)"
  let ?d = "pre @ 0x32 # q"
  have "length q \<le> length (varint (word_of_int (len s) :: uint64) @ s)"
    unfolding q_def by simp
  then have 0: "length ?d < 2 ^ 63" using assms(1) by simp
  have 1: "length pre < length ?d" by simp
  have 2: "?d ! length pre = 0x32" by (simp add: nth_append)
  have "Unmarshal_field ?d m (int (length pre)) = Inl ErrUnexpectedEOF"
    unfolding Unmarshal_field_at_tag [OF 0 1 2, simplified]
      readString_truncated [OF assms, folded q_def]
    by simp
  then show ?thesis unfolding q_def .
qed

lemma Unmarshal_field_truncated:
  assumes "known f" and "0 < r" and "r < length (field_bytes f)"
    and "length (pre @ field_bytes f) < 2 ^ 63"
  shows "Unmarshal_field (pre @ take r (field_bytes f)) m (int (length pre)) = Inl ErrUnexpectedEOF"
proof -
  from assms(2) obtain n where r: "r = Suc n" by (cases r) simp_all
  show ?thesis
  proof (cases f)
    case (FSeq v)
    with assms r Unmarshal_field_Seq_truncated [of pre n v m] show ?thesis by simp
  next
    case (FType v)
    with assms r Unmarshal_field_Type_truncated [of pre n "scast v" m] show ?thesis by simp
  next
    case (FUri s)
    with assms r Unmarshal_field_Uri_truncated [of pre s n m] show ?thesis by simp
  next
    case (FGzip v)
    with assms r Unmarshal_field_Gzip_truncated [of pre n "scast v" m] show ?thesis by simp
  next
    case (FStatusCode v)
    with assms r Unmarshal_field_StatusCode_truncated [of pre n "scast v" m] show ?thesis by simp
  next
    case (FStatus s)
    with assms r Unmarshal_field_Status_truncated [of pre s n m] show ?thesis by simp
  next
    case (FUnknown u)
    with assms(1) show ?thesis by simp
  qed
qed

lemma known_present: "\<forall>f \<in> set (present h). known f"
  by (auto simp: present_def)

text \<open>
  Bytes that stop inside a field: the fields before it are read, and the turn of the loop
  for the cut field returns \<^verbatim>\<open>io.ErrUnexpectedEOF\<close>.
\<close>

lemma Unmarshal_cut:
  assumes "\<forall>f \<in> set fs. accepted f" and "known f"
    and "0 < r" and "r < length (field_bytes f)"
    and "length (wire fs @ field_bytes f) < 2 ^ 63"
  shows "Unmarshal m (wire fs @ take r (field_bytes f)) = Inl ErrUnexpectedEOF"
proof -
  let ?q = "take r (field_bytes f)"
  let ?d = "wire fs @ ?q"
  have b: "length ([] @ wire fs @ ?q) < 2 ^ 63" using assms(5) by simp
  have b': "length ?d < 2 ^ 63" using assms(5) by simp
  have "Unmarshal m ?d = Unmarshal_loop ?d (fold assign fs m) (int (length (wire fs)))"
    using Unmarshal_loop_wire_more [OF assms(1) b, of m] by (simp add: Unmarshal_def)
  also have "\<dots> = Inl ErrUnexpectedEOF"
  proof (rule Unmarshal_loop_error [OF b'])
    show "int (length (wire fs)) < int (length ?d)" using assms(3,4) by simp
    show "Unmarshal_field ?d (fold assign fs m) (int (length (wire fs))) = Inl ErrUnexpectedEOF"
      by (rule Unmarshal_field_truncated [OF assms(2,3,4,5)])
  qed
  finally show ?thesis .
qed


text \<open>The header with the fields of the numbers up to \<open>j\<close>, and the others zero or empty.\<close>

definition keep_fields :: "nat \<Rightarrow> Header \<Rightarrow> Header" where
  "keep_fields j h =
     \<lparr>Seq = (if 1 \<le> j then Seq h else 0),
      Type = (if 2 \<le> j then Type h else 0),
      Uri = (if 3 \<le> j then Uri h else []),
      Gzip = (if 4 \<le> j then Gzip h else 0),
      StatusCode = (if 5 \<le> j then StatusCode h else 0),
      Status = (if 6 \<le> j then Status h else [])\<rparr>"

lemma take_concat_short:
  "(\<forall>c \<in> set cs. length c \<le> 1) \<Longrightarrow> \<exists>j \<le> length cs. take k (concat cs) = concat (take j cs)"
proof (induction cs arbitrary: k)
  case Nil
  then show ?case by simp
next
  case (Cons c cs)
  then have short: "\<forall>c \<in> set cs. length c \<le> 1" and c: "length c \<le> 1" by simp_all
  show ?case
  proof (cases "k = 0")
    case True
    then show ?thesis by (intro exI [of _ 0]) simp
  next
    case False
    from Cons.IH [OF short, of "k - length c"] obtain j where
      j: "j \<le> length cs" "take (k - length c) (concat cs) = concat (take j cs)" by blast
    from c False have "take k c = c" by (cases c) simp_all
    with j show ?thesis by (intro exI [of _ "Suc j"]) simp
  qed
qed

lemma present_keep_fields:
  assumes "j \<le> 6"
  shows "present (keep_fields j h) = concat (take j
     [if Seq h \<noteq> 0 then [FSeq (Seq h)] else [],
      if Type h \<noteq> 0 then [FType (Type h)] else [],
      if Uri h \<noteq> [] then [FUri (Uri h)] else [],
      if Gzip h \<noteq> 0 then [FGzip (Gzip h)] else [],
      if StatusCode h \<noteq> 0 then [FStatusCode (StatusCode h)] else [],
      if Status h \<noteq> [] then [FStatus (Status h)] else []])"
proof -
  from assms have "j = 0 \<or> j = 1 \<or> j = 2 \<or> j = 3 \<or> j = 4 \<or> j = 5 \<or> j = 6" by arith
  then show ?thesis
    by (elim disjE) (simp_all add: present_def keep_fields_def)
qed

lemma take_present: "\<exists>j. take k (present h) = present (keep_fields j h)"
proof -
  let ?cs = "[if Seq h \<noteq> 0 then [FSeq (Seq h)] else [],
      if Type h \<noteq> 0 then [FType (Type h)] else [],
      if Uri h \<noteq> [] then [FUri (Uri h)] else [],
      if Gzip h \<noteq> 0 then [FGzip (Gzip h)] else [],
      if StatusCode h \<noteq> 0 then [FStatusCode (StatusCode h)] else [],
      if Status h \<noteq> [] then [FStatus (Status h)] else []]"
  have p: "present h = concat ?cs" by (simp add: present_def)
  have "\<forall>c \<in> set ?cs. length c \<le> 1" by simp
  from take_concat_short [OF this, of k] obtain j where
    "j \<le> length ?cs" "take k (concat ?cs) = concat (take j ?cs)" by blast
  then have "j \<le> 6" "take k (present h) = present (keep_fields j h)"
    unfolding p by (simp_all add: present_keep_fields)
  then show ?thesis by blast
qed

lemma Marshal_Unmarshal_wire:
  assumes "length (Uri h) + length (Status h) < 2 ^ 62"
  shows "Marshal h = Inr (wire (present h))"
    and "Unmarshal zeroHeader (wire (present h)) = Inr h"
proof -
  have b: "length (wire (present h)) < 2 ^ 63" by (rule fits [OF assms])
  show "Marshal h = Inr (wire (present h))" by (rule Marshal_wire [OF b])
  show "Unmarshal zeroHeader (wire (present h)) = Inr h"
    using Unmarshal_wire [OF accepted_present b, of zeroHeader]
    by (simp add: fold_assign_present)
qed

lemma keep_fields_fits:
  "length (Uri h) + length (Status h) < 2 ^ 62 \<Longrightarrow>
   length (Uri (keep_fields j h)) + length (Status (keep_fields j h)) < 2 ^ 62"
  by (simp add: keep_fields_def)


text \<open>
  Claim C3. Let \<open>dAtA\<close> be the bytes \<open>Marshal\<close> gives for a header \<open>h\<close> (whose strings
  are together shorter than \<open>2 ^ 62\<close> bytes), and cut it after \<open>n\<close> bytes, \<open>n\<close> less than the
  length. Then \<open>Unmarshal\<close> into a zero header either returns a header, and this only
  when the cut falls on a field boundary: the bytes kept are the encoding of \<open>h\<close> with
  the fields past the cut zero, and that header is the result; or the cut falls inside a
  field, the bytes kept are the encoding of no such header, and the result is
  \<open>io.ErrUnexpectedEOF\<close>. A cut encoding is never decoded to a field value other than the
  encoded one.
\<close>

theorem truncation_safety:
  assumes "length (Uri h) + length (Status h) < 2 ^ 62"
    and "Marshal h = Inr dAtA" and "n < length dAtA"
  shows "(\<exists>j. Marshal (keep_fields j h) = Inr (take n dAtA) \<and>
            Unmarshal zeroHeader (take n dAtA) = Inr (keep_fields j h)) \<or>
         ((\<forall>j. Marshal (keep_fields j h) \<noteq> Inr (take n dAtA)) \<and>
            Unmarshal zeroHeader (take n dAtA) = Inl ErrUnexpectedEOF)"
proof -
  let ?fs = "present h"
  from Marshal_Unmarshal_wire(1) [OF assms(1)] assms(2) have d: "dAtA = wire ?fs" by simp
  have b: "length (wire ?fs) < 2 ^ 63" by (rule fits [OF assms(1)])
  from assms(3) have "n < length (wire ?fs)" by (simp add: d)
  from take_wire_split [OF this] obtain k r where
    k: "k < length ?fs" and r: "r < length (field_bytes (?fs ! k))"
    and t: "take n (wire ?fs) = wire (take k ?fs) @ take r (field_bytes (?fs ! k))"
    by blast
  have rt: "Marshal (keep_fields j h) = Inr (wire (present (keep_fields j h)))"
    "Unmarshal zeroHeader (wire (present (keep_fields j h))) = Inr (keep_fields j h)" for j
    by (rule Marshal_Unmarshal_wire [OF keep_fields_fits [OF assms(1)]])+
  show ?thesis
  proof (cases "r = 0")
    case True
    from take_present [of k h] obtain j where j: "take k ?fs = present (keep_fields j h)" ..
    from t True j have "take n dAtA = wire (present (keep_fields j h))" by (simp add: d)
    with rt [of j] show ?thesis by auto
  next
    case False
    have acc: "\<forall>f \<in> set (take k ?fs). accepted f"
      using accepted_present [of h] by (auto dest: in_set_takeD)
    have kn: "known (?fs ! k)"
      using known_present [of h] k by simp
    have "?fs = take k ?fs @ ?fs ! k # drop (Suc k) ?fs"
      by (rule id_take_nth_drop [OF k])
    then have "wire ?fs = wire (take k ?fs) @ field_bytes (?fs ! k) @ wire (drop (Suc k) ?fs)"
      by (metis wire_append wire_Cons)
    then have "length (wire (take k ?fs) @ field_bytes (?fs ! k)) \<le> length (wire ?fs)"
      by (metis append.assoc length_append le_add1)
    with b have b': "length (wire (take k ?fs) @ field_bytes (?fs ! k)) < 2 ^ 63" by simp
    from False have "0 < r" by simp
    from Unmarshal_cut [OF acc kn this r b', of zeroHeader] t
    have e: "Unmarshal zeroHeader (take n dAtA) = Inl ErrUnexpectedEOF" by (simp add: d)
    have "Marshal (keep_fields j h) \<noteq> Inr (take n dAtA)" for j
    proof
      assume "Marshal (keep_fields j h) = Inr (take n dAtA)"
      with rt(1) [of j] have "take n dAtA = wire (present (keep_fields j h))" by simp
      with rt(2) [of j] e show False by simp
    qed
    with e show ?thesis by blast
  qed
qed

theorem truncation_safety_witness:
  "length (Uri (zeroHeader\<lparr>Seq := 7, Status := [79, 75]\<rparr>)) +
     length (Status (zeroHeader\<lparr>Seq := 7, Status := [79, 75]\<rparr>)) < 2 ^ 62 \<and>
   Marshal (zeroHeader\<lparr>Seq := 7, Status := [79, 75]\<rparr>) = Inr [8, 7, 50, 2, 79, 75] \<and>
   (4::nat) < length [8, 7, 50, 2, 79, 75 :: byte] \<and>
   ((\<exists>j. Marshal (keep_fields j (zeroHeader\<lparr>Seq := 7, Status := [79, 75]\<rparr>)) =
          Inr (take 4 [8, 7, 50, 2, 79, 75]) \<and>
        Unmarshal zeroHeader (take 4 [8, 7, 50, 2, 79, 75]) =
          Inr (keep_fields j (zeroHeader\<lparr>Seq := 7, Status := [79, 75]\<rparr>))) \<or>
    ((\<forall>j. Marshal (keep_fields j (zeroHeader\<lparr>Seq := 7, Status := [79, 75]\<rparr>)) \<noteq>
          Inr (take 4 [8, 7, 50, 2, 79, 75])) \<and>
        Unmarshal zeroHeader (take 4 [8, 7, 50, 2, 79, 75]) = Inl ErrUnexpectedEOF)) \<and>
   Unmarshal zeroHeader (take 4 [8, 7, 50, 2, 79, 75]) = Inl ErrUnexpectedEOF \<and>
   Unmarshal zeroHeader (take 2 [8, 7, 50, 2, 79, 75]) = Inr (zeroHeader\<lparr>Seq := 7\<rparr>)"
proof -
  let ?h = "zeroHeader\<lparr>Seq := 7, Status := [79, 75]\<rparr>"
  let ?d = "[8, 7, 50, 2, 79, 75 :: byte]"
  have a: "length (Uri ?h) + length (Status ?h) < 2 ^ 62" by (simp add: zeroHeader_def)
  have m: "Marshal ?h = Inr ?d" by code_simp
  have n: "(4::nat) < length ?d" by simp
  have e: "Unmarshal zeroHeader (take 4 ?d) = Inl ErrUnexpectedEOF" by code_simp
  have s: "Unmarshal zeroHeader (take 2 ?d) = Inr (zeroHeader\<lparr>Seq := 7\<rparr>)" by code_simp
  from truncation_safety [OF a m n] a m n e s show ?thesis by blast
qed

section \<open>Packets and the packet stack\<close>

text \<open>
  Package \<^verbatim>\<open>codec\<close> of the repository is not among the sources. A codec is what the
  packet code reads of it, the results of \<^verbatim>\<open>Id()\<close> and \<^verbatim>\<open>Name()\<close>. The lookup
  \<^verbatim>\<open>codec.GetByName\<close> is a parameter of the functions that call it: a function from a name
  to an error or a codec.
\<close>

record codec =
  Id' :: byte
  Name :: string

type_synonym 'e GetByName = "string \<Rightarrow> 'e + codec"

text \<open>
  Modelled from the spec: the constant \<^verbatim>\<open>codec.NilCodecId\<close>, which is not among the sources.
  Section 4.4: a reserved id (e.g., 0) denotes "unset".
\<close>

definition NilCodecId :: byte where
  "NilCodecId = 0"

text \<open>
  A packet. \<^verbatim>\<open>Body\<close> is an \<^verbatim>\<open>interface{}\<close>: \<open>None\<close> is \<^verbatim>\<open>nil\<close>. \<^verbatim>\<open>bodyGetting\<close> is a function
  or \<^verbatim>\<open>nil\<close>; it is given a pointer to the header, so it returns the header as it leaves it
  with the body. \<^verbatim>\<open>next\<close> is a pointer to a packet (an address of the store below) or
  \<^verbatim>\<open>nil\<close>. The header a packet points to is allocated with the packet and is modelled
  as a part of it.
\<close>

record 'b Packet =
  HeaderCodec :: byte
  BodyCodec :: byte
  Header :: Header
  Body :: "'b option"
  HeaderLength :: int
  BodyLength :: int
  Length :: int
  bodyGetting :: "(Header \<Rightarrow> 'b option \<times> Header) option"
  next' :: "nat option"

type_synonym 'b PacketSetting = "'b Packet \<Rightarrow> 'b Packet"

definition NewPacket ::
  "(Header \<Rightarrow> 'b option \<times> Header) option \<Rightarrow> 'b PacketSetting list \<Rightarrow> 'b Packet" where
  "NewPacket bodyGetting' settings =
     (let p = \<lparr>HeaderCodec = NilCodecId, BodyCodec = NilCodecId, Header = zeroHeader,
                Body = None, HeaderLength = 0, BodyLength = 0, Length = 0,
                bodyGetting = bodyGetting', next' = None\<rparr>
      in foldl (\<lambda>p f. f p) p settings)"

definition Reset ::
  "(Header \<Rightarrow> 'b option \<times> Header) option \<Rightarrow> 'b PacketSetting list \<Rightarrow> 'b Packet \<Rightarrow> 'b Packet" where
  "Reset bodyGetting' settings p =
     (let p = p\<lparr>next' := None\<rparr>;
          p = p\<lparr>bodyGetting := bodyGetting'\<rparr>;
          p = p\<lparr>Header := Reset_Header (Header p)\<rparr>;
          p = p\<lparr>Body := None\<rparr>;
          p = p\<lparr>HeaderLength := 0\<rparr>;
          p = p\<lparr>BodyLength := 0\<rparr>;
          p = p\<lparr>Length := 0\<rparr>;
          p = p\<lparr>HeaderCodec := NilCodecId\<rparr>;
          p = p\<lparr>BodyCodec := NilCodecId\<rparr>
      in foldl (\<lambda>p f. f p) p settings)"

text \<open>\<^verbatim>\<open>loadBody\<close> returns the body and leaves the packet changed.\<close>

definition loadBody :: "'b Packet \<Rightarrow> 'b option \<times> 'b Packet" where
  "loadBody p =
     (let p = (case bodyGetting p of
                 Some g \<Rightarrow> (case g (Header p) of (b, h) \<Rightarrow> p\<lparr>Header := h, Body := b\<rparr>)
               | None \<Rightarrow> p\<lparr>Body := None\<rparr>)
      in (Body p, p))"

text \<open>
  \<^verbatim>\<open>getCodecByName\<close> panics with the error of the lookup: \<open>Inl\<close> is the value it
  panics with. The two setters have no result: they return or panic, and the model gives
  how the call ended with the packet as it left it.
\<close>

datatype 'e exit = Returns | Panics 'e

definition getCodecByName :: "'e GetByName \<Rightarrow> string \<Rightarrow> 'e + codec" where
  "getCodecByName GetByName codecName =
     (case GetByName codecName of Inl err \<Rightarrow> Inl err | Inr c \<Rightarrow> Inr c)"

definition SetHeaderCodecByName :: "'e GetByName \<Rightarrow> string \<Rightarrow> 'b Packet \<Rightarrow> 'e exit \<times> 'b Packet" where
  "SetHeaderCodecByName GetByName codecName p =
     (case getCodecByName GetByName codecName of
        Inl err \<Rightarrow> (Panics err, p)
      | Inr c \<Rightarrow> (Returns, p\<lparr>HeaderCodec := Id' c\<rparr>))"

definition SetBodyCodecByName :: "'e GetByName \<Rightarrow> string \<Rightarrow> 'b Packet \<Rightarrow> 'e exit \<times> 'b Packet" where
  "SetBodyCodecByName GetByName codecName p =
     (case getCodecByName GetByName codecName of
        Inl err \<Rightarrow> (Panics err, p)
      | Inr c \<Rightarrow> (Returns, p\<lparr>BodyCodec := Id' c\<rparr>))"

text \<open>
  \<^verbatim>\<open>WithBodyCodec\<close> looks the codec up when the setting is made, and panics there;
  \<^verbatim>\<open>WithBodyGzip\<close> cannot fail.
\<close>

definition WithBodyCodec :: "'e GetByName \<Rightarrow> string \<Rightarrow> 'e + 'b PacketSetting" where
  "WithBodyCodec GetByName codecName =
     (case getCodecByName GetByName codecName of
        Inl err \<Rightarrow> Inl err
      | Inr c \<Rightarrow> let codecId = Id' c in Inr (\<lambda>p. p\<lparr>BodyCodec := codecId\<rparr>))"

definition WithBodyGzip :: "int32 \<Rightarrow> 'b PacketSetting" where
  "WithBodyGzip gzipLevel = (\<lambda>p. p\<lparr>Header := (Header p)\<lparr>Gzip := gzipLevel\<rparr>\<rparr>)"

text \<open>
  The packet stack: the packets live in a store, from addresses to packets, and
  \<^verbatim>\<open>packetStack.freePacket\<close> is the address of the first free packet or \<^verbatim>\<open>nil\<close>. \<open>brk\<close> is
  the first address that no allocation has used yet. (The mutex is not modelled: the
  calls are taken one at a time.)
\<close>

record 'b store =
  heap :: "nat \<Rightarrow> 'b Packet"
  freePacket :: "nat option"
  brk :: nat

definition GetPacket ::
  "(Header \<Rightarrow> 'b option \<times> Header) option \<Rightarrow> 'b PacketSetting list \<Rightarrow> 'b store \<Rightarrow> nat \<times> 'b store" where
  "GetPacket bodyGetting' settings s =
     (case freePacket s of
        None \<Rightarrow>
          (let p = brk s
           in (p, s\<lparr>heap := (heap s)(p := NewPacket bodyGetting' []), brk := p + 1\<rparr>))
      | Some p \<Rightarrow>
          (let s = s\<lparr>freePacket := next' (heap s p)\<rparr>;
               s = s\<lparr>heap := (heap s)(p := Reset bodyGetting' settings (heap s p))\<rparr>
           in (p, s)))"

definition PutPacket :: "nat \<Rightarrow> 'b store \<Rightarrow> 'b store" where
  "PutPacket p s =
     (let s = s\<lparr>heap := (heap s)(p := (heap s p)\<lparr>Body := None\<rparr>)\<rparr>;
          s = s\<lparr>heap := (heap s)(p := (heap s p)\<lparr>next' := freePacket s\<rparr>)\<rparr>;
          s = s\<lparr>freePacket := Some p\<rparr>
      in s)"


text \<open>\<^verbatim>\<open>var packetStack = new(struct{...})\<close>: nothing is free and nothing is allocated.\<close>

definition initStore :: "'b store" where
  "initStore = \<lparr>heap = (\<lambda>_. NewPacket None []), freePacket = None, brk = 0\<rparr>"

text \<open>The free list: the addresses met from \<open>p\<close> along the \<^verbatim>\<open>next\<close> pointers, up to \<^verbatim>\<open>nil\<close>.\<close>

fun is_chain :: "(nat \<Rightarrow> 'b Packet) \<Rightarrow> nat option \<Rightarrow> nat list \<Rightarrow> bool" where
  "is_chain h p [] = (p = None)"
| "is_chain h p (a # as) = (p = Some a \<and> is_chain h (next' (h a)) as)"

text \<open>
  The states that calls of \<^verbatim>\<open>GetPacket\<close> and \<^verbatim>\<open>PutPacket\<close> reach, with the set of the
  packets that are held: those \<^verbatim>\<open>GetPacket\<close> has returned and that have not been put
  back since. A packet is put back only while it is held; the holder of a packet may
  change it in any way.
\<close>

inductive reach :: "'b store \<Rightarrow> nat set \<Rightarrow> bool" where
  init: "reach initStore {}"
| get: "reach s L \<Longrightarrow> GetPacket bodyGetting' settings s = (p, s') \<Longrightarrow> reach s' (insert p L)"
| put: "reach s L \<Longrightarrow> p \<in> L \<Longrightarrow> reach (PutPacket p s) (L - {p})"
| change: "reach s L \<Longrightarrow> p \<in> L \<Longrightarrow> reach (s\<lparr>heap := (heap s)(p := f (heap s p))\<rparr>) L"

definition pool_inv :: "'b store \<Rightarrow> nat set \<Rightarrow> bool" where
  "pool_inv s L \<longleftrightarrow>
     (\<exists>fl. is_chain (heap s) (freePacket s) fl \<and> distinct fl \<and> set fl \<inter> L = {}
        \<and> (\<forall>a \<in> set fl \<union> L. a < brk s))"

lemma is_chain_upd: "a \<notin> set as \<Longrightarrow> is_chain (h(a := x)) p as = is_chain h p as"
  by (induction as arbitrary: p) auto

lemma Reset_Header_eq: "Reset_Header m = zeroHeader"
  by (cases m) (simp add: Reset_Header_def zeroHeader_def)

lemma Reset_eq_NewPacket: "Reset bg ss p = NewPacket bg ss"
  by (cases p) (simp add: Reset_def NewPacket_def Reset_Header_eq)

lemma reach_inv: "reach s L \<Longrightarrow> pool_inv s L"
proof (induction rule: reach.induct)
  case init
  show ?case unfolding pool_inv_def by (rule exI [of _ "[]"]) (simp add: initStore_def)
next
  case (get s L bg ss p s')
  then obtain fl where fl: "is_chain (heap s) (freePacket s) fl" "distinct fl" "set fl \<inter> L = {}"
    "\<forall>a \<in> set fl \<union> L. a < brk s"
    unfolding pool_inv_def by blast
  show ?case
  proof (cases "freePacket s")
    case None
    with fl have "fl = []" by (cases fl) simp_all
    with get.hyps(2) None fl(4) show ?thesis
      unfolding pool_inv_def
      by (intro exI [of _ "[]"]) (auto simp: GetPacket_def Let_def less_Suc_eq)
  next
    case (Some a)
    with fl obtain fl' where fl': "fl = a # fl'" by (cases fl) simp_all
    with fl Some have c: "is_chain (heap s) (next' (heap s a)) fl'" "a \<notin> set fl'" "distinct fl'"
      "set fl' \<inter> L = {}" "\<forall>a \<in> set fl' \<union> insert a L. a < brk s" by auto
    from get.hyps(2) Some have p: "p = a"
      and s': "s' = s\<lparr>freePacket := next' (heap s a), heap := (heap s)(a := Reset bg ss (heap s a))\<rparr>"
      by (auto simp: GetPacket_def Let_def)
    show ?thesis unfolding pool_inv_def
      by (rule exI [of _ fl']) (use c in \<open>simp add: p s' is_chain_upd\<close>)
  qed
next
  case (put s L p)
  then obtain fl where fl: "is_chain (heap s) (freePacket s) fl" "distinct fl" "set fl \<inter> L = {}"
    "\<forall>a \<in> set fl \<union> L. a < brk s"
    unfolding pool_inv_def by blast
  with put.hyps(2) have "p \<notin> set fl" by auto
  with fl put.hyps(2) show ?case unfolding pool_inv_def
    by (intro exI [of _ "p # fl"]) (auto simp: PutPacket_def Let_def is_chain_upd)
next
  case (change s L p f)
  then obtain fl where fl: "is_chain (heap s) (freePacket s) fl" "distinct fl" "set fl \<inter> L = {}"
    "\<forall>a \<in> set fl \<union> L. a < brk s"
    unfolding pool_inv_def by blast
  with change.hyps(2) have "p \<notin> set fl" by auto
  with fl show ?case unfolding pool_inv_def
    by (intro exI [of _ fl]) (auto simp: is_chain_upd)
qed


lemma GetPacket_not_held:
  assumes "reach s L"
  shows "fst (GetPacket bg ss s) \<notin> L"
proof -
  from reach_inv [OF assms] obtain fl where
    fl: "is_chain (heap s) (freePacket s) fl" "set fl \<inter> L = {}" "\<forall>a \<in> set fl \<union> L. a < brk s"
    unfolding pool_inv_def by blast
  show ?thesis
  proof (cases "freePacket s")
    case None
    then have "fst (GetPacket bg ss s) = brk s" by (simp add: GetPacket_def Let_def)
    with fl(3) show ?thesis by auto
  next
    case (Some a)
    then have "fst (GetPacket bg ss s) = a" by (simp add: GetPacket_def Let_def)
    moreover from fl(1) Some have "a \<in> set fl" by (cases fl) simp_all
    ultimately show ?thesis using fl(2) by auto
  qed
qed

lemma GetPacket_clean:
  "heap (snd (GetPacket bg ss s)) (fst (GetPacket bg ss s)) =
     (case freePacket s of None \<Rightarrow> NewPacket bg [] | Some p \<Rightarrow> NewPacket bg ss)"
  by (simp add: GetPacket_def Let_def Reset_eq_NewPacket split: option.splits)

lemma PutPacket_Body: "Body (heap (PutPacket p s) p) = None"
  by (simp add: PutPacket_def Let_def)

section \<open>Claims about packets\<close>

text \<open>
  Claim C9, as it is stated, fails: with no resolver set, \<^verbatim>\<open>loadBody\<close> does not leave a body
  that was assigned before. A packet whose \<^verbatim>\<open>Body\<close> is 1 and whose \<^verbatim>\<open>bodyGetting\<close> is \<^verbatim>\<open>nil\<close>
  has no body after the call.
\<close>

theorem loadBody_counterexample:
  "Body (snd (loadBody \<lparr>HeaderCodec = 0, BodyCodec = 0, Header = zeroHeader,
       Body = Some (1::nat), HeaderLength = 0, BodyLength = 0, Length = 0,
       bodyGetting = None, next' = None\<rparr>)) \<noteq> Some 1"
  by (simp add: loadBody_def)

text \<open>
  Claim C9, amended. When a resolver is set, \<^verbatim>\<open>loadBody\<close> calls it with the header of the
  packet, stores what it returns in \<^verbatim>\<open>Body\<close> and returns it (the header is as the resolver
  leaves it). When no resolver is set, \<^verbatim>\<open>loadBody\<close> sets \<^verbatim>\<open>Body\<close> to \<^verbatim>\<open>nil\<close> and returns
  \<^verbatim>\<open>nil\<close>. No other field of the packet changes.
\<close>

theorem loadBody_resolver_or_nil:
  "(bodyGetting p = Some g \<longrightarrow>
      loadBody p = (fst (g (Header p)), p\<lparr>Header := snd (g (Header p)), Body := fst (g (Header p))\<rparr>))
   \<and> (bodyGetting p = None \<longrightarrow> loadBody p = (None, p\<lparr>Body := None\<rparr>))"
  by (auto simp: loadBody_def Let_def split: prod.splits)

theorem loadBody_resolver_or_nil_witness:
  "loadBody \<lparr>HeaderCodec = 0, BodyCodec = 0, Header = zeroHeader, Body = Some (1::nat),
       HeaderLength = 0, BodyLength = 0, Length = 0,
       bodyGetting = Some (\<lambda>h. (Some (unat (Seq h) + 7), h)), next' = None\<rparr>
     = (Some 7, \<lparr>HeaderCodec = 0, BodyCodec = 0, Header = zeroHeader, Body = Some 7,
       HeaderLength = 0, BodyLength = 0, Length = 0,
       bodyGetting = Some (\<lambda>h. (Some (unat (Seq h) + 7), h)), next' = None\<rparr>)
   \<and> loadBody \<lparr>HeaderCodec = 0, BodyCodec = 0, Header = zeroHeader, Body = Some (1::nat),
       HeaderLength = 0, BodyLength = 0, Length = 0, bodyGetting = None, next' = None\<rparr>
     = (None, \<lparr>HeaderCodec = 0, BodyCodec = 0, Header = zeroHeader, Body = None,
       HeaderLength = 0, BodyLength = 0, Length = 0, bodyGetting = None, next' = None\<rparr>)"
  using loadBody_resolver_or_nil [of "\<lparr>HeaderCodec = 0, BodyCodec = 0, Header = zeroHeader, Body = Some (1::nat),
       HeaderLength = 0, BodyLength = 0, Length = 0,
       bodyGetting = Some (\<lambda>h. (Some (unat (Seq h) + 7), h)), next' = None\<rparr>" "\<lambda>h. (Some (unat (Seq h) + 7), h)"]
    loadBody_resolver_or_nil [of "\<lparr>HeaderCodec = 0, BodyCodec = 0, Header = zeroHeader, Body = Some (1::nat),
       HeaderLength = 0, BodyLength = 0, Length = 0, bodyGetting = None, next' = None\<rparr>"]
  by (simp add: zeroHeader_def)

text \<open>
  Claim C6, as it is stated, fails: when the lookup fails, \<^verbatim>\<open>SetHeaderCodecByName\<close> does not
  return an error (it has no result), it panics with the error of the lookup.
\<close>

theorem SetHeaderCodecByName_counterexample:
  "fst (SetHeaderCodecByName (\<lambda>name. Inl ''CodecNotFound'') ''json'' (NewPacket None []))
     = Panics ''CodecNotFound''"
  by (simp add: SetHeaderCodecByName_def getCodecByName_def)

text \<open>
  Claim C6, amended. When the lookup of the name fails with an error, \<^verbatim>\<open>SetHeaderCodecByName\<close>
  and \<^verbatim>\<open>SetBodyCodecByName\<close> panic with that error, and the packet is as it was before the
  call: its codec id is not changed and not set to a default.
\<close>

theorem SetCodecByName_unregistered:
  "GetByName codecName = Inl err \<Longrightarrow>
     SetHeaderCodecByName GetByName codecName p = (Panics err, p)
     \<and> SetBodyCodecByName GetByName codecName p = (Panics err, p)"
  by (simp add: SetHeaderCodecByName_def SetBodyCodecByName_def getCodecByName_def)

theorem SetCodecByName_unregistered_witness:
  "(\<lambda>name. Inl ''CodecNotFound'' :: string + codec) ''json'' = Inl ''CodecNotFound''
   \<and> SetHeaderCodecByName (\<lambda>name. Inl ''CodecNotFound'') ''json'' (NewPacket None [] :: nat Packet)
       = (Panics ''CodecNotFound'', NewPacket None [])
   \<and> SetBodyCodecByName (\<lambda>name. Inl ''CodecNotFound'') ''json'' (NewPacket None [] :: nat Packet)
       = (Panics ''CodecNotFound'', NewPacket None [])"
  using SetCodecByName_unregistered [of "\<lambda>name. Inl ''CodecNotFound''" "''json''" "''CodecNotFound''" "NewPacket None [] :: nat Packet"]
  by simp

text \<open>
  Claim C8 does not hold of the code: when the stack is empty, \<^verbatim>\<open>GetPacket\<close> calls
  \<^verbatim>\<open>NewPacket(bodyGetting)\<close> without the settings. From the initial stack,
  \<^verbatim>\<open>GetPacket(nil, WithBodyGzip(5))\<close> returns a packet whose \<^verbatim>\<open>Header.Gzip\<close> is 0; after one
  packet has been put back, the same call returns a packet whose \<^verbatim>\<open>Header.Gzip\<close> is 5.
\<close>

theorem GetPacket_fresh_drops_settings:
  "Gzip (Header (heap (snd (GetPacket None [WithBodyGzip 5] initStore))
                      (fst (GetPacket None [WithBodyGzip 5] initStore)))) = 0
   \<and> Gzip (Header (heap (snd (GetPacket None [WithBodyGzip 5] (PutPacket 0 (snd (GetPacket None [] initStore)))))
                      (fst (GetPacket None [WithBodyGzip 5] (PutPacket 0 (snd (GetPacket None [] initStore))))))) = 5"
  by (simp add: GetPacket_def PutPacket_def initStore_def NewPacket_def Reset_def WithBodyGzip_def
      zeroHeader_def Reset_Header_def Let_def)


text \<open>
  Claim C7. In every state that calls of \<^verbatim>\<open>GetPacket\<close> and \<^verbatim>\<open>PutPacket\<close> reach, where a
  packet is put back only while it is held: the packet that \<^verbatim>\<open>GetPacket\<close> returns is none of
  the packets that are held; after \<^verbatim>\<open>PutPacket\<close> the \<^verbatim>\<open>Body\<close> of the packet is \<^verbatim>\<open>nil\<close>; and
  the packet that \<^verbatim>\<open>GetPacket\<close> returns is a packet with every header field zero or empty,
  no body, both codec ids \<^verbatim>\<open>NilCodecId\<close> and the lengths 0, to which the settings of the
  caller have been applied (the settings of the call for a recycled packet, none for a
  new one): nothing of its earlier use is left.
\<close>

theorem pool_correctness:
  assumes "reach s L"
  shows "fst (GetPacket bg ss s) \<notin> L
    \<and> Body (heap (PutPacket p s) p) = None
    \<and> heap (snd (GetPacket bg ss s)) (fst (GetPacket bg ss s))
        = foldl (\<lambda>q f. f q) (NewPacket bg []) (if freePacket s = None then [] else ss)
    \<and> NewPacket bg [] =
        \<lparr>HeaderCodec = NilCodecId, BodyCodec = NilCodecId,
         Header = \<lparr>Seq = 0, Type = 0, Uri = [], Gzip = 0, StatusCode = 0, Status = []\<rparr>,
         Body = None, HeaderLength = 0, BodyLength = 0, Length = 0,
         bodyGetting = bg, next' = None\<rparr>"
proof -
  have "heap (snd (GetPacket bg ss s)) (fst (GetPacket bg ss s))
        = foldl (\<lambda>q f. f q) (NewPacket bg []) (if freePacket s = None then [] else ss)"
    by (cases "freePacket s") (simp_all add: GetPacket_clean NewPacket_def)
  moreover have "NewPacket bg [] =
        \<lparr>HeaderCodec = NilCodecId, BodyCodec = NilCodecId,
         Header = \<lparr>Seq = 0, Type = 0, Uri = [], Gzip = 0, StatusCode = 0, Status = []\<rparr>,
         Body = None, HeaderLength = 0, BodyLength = 0, Length = 0,
         bodyGetting = bg, next' = None\<rparr>"
    by (simp add: NewPacket_def zeroHeader_def)
  ultimately show ?thesis
    using GetPacket_not_held [OF assms] PutPacket_Body by blast
qed

theorem pool_correctness_witness:
  "reach (PutPacket 0 (snd (GetPacket None [] (snd (GetPacket None [] (initStore :: nat store)))))) {1}
   \<and> fst (GetPacket None [WithBodyGzip 5]
        (PutPacket 0 (snd (GetPacket None [] (snd (GetPacket None [] (initStore :: nat store))))))) = 0
   \<and> Gzip (Header (heap (snd (GetPacket None [WithBodyGzip 5]
        (PutPacket 0 (snd (GetPacket None [] (snd (GetPacket None [] (initStore :: nat store))))))) ) 0)) = 5"
proof -
  let ?s1 = "snd (GetPacket None [] (initStore :: nat store))"
  let ?s2 = "snd (GetPacket None [] ?s1)"
  have g1: "GetPacket None [] (initStore :: nat store) = (0, ?s1)"
    by (simp add: GetPacket_def initStore_def Let_def)
  have g2: "GetPacket None [] ?s1 = (1, ?s2)"
    by (simp add: GetPacket_def initStore_def Let_def)
  have r1: "reach ?s1 {0}" using reach.get [OF reach.init g1] by simp
  have r2: "reach ?s2 {0, 1}" using reach.get [OF r1 g2] by (simp add: insert_commute)
  have r3: "reach (PutPacket 0 ?s2) {1}" using reach.put [OF r2, of 0] by simp
  have f: "freePacket (PutPacket 0 ?s2) = Some 0" by (simp add: PutPacket_def Let_def)
  from pool_correctness [OF r3, of None "[WithBodyGzip 5]" 0] f
  have "fst (GetPacket None [WithBodyGzip 5] (PutPacket 0 ?s2)) \<notin> {1::nat}"
    and "heap (snd (GetPacket None [WithBodyGzip 5] (PutPacket 0 ?s2)))
          (fst (GetPacket None [WithBodyGzip 5] (PutPacket 0 ?s2)))
         = WithBodyGzip 5 (NewPacket None [])" by simp_all
  moreover have "fst (GetPacket None [WithBodyGzip 5] (PutPacket 0 ?s2)) = 0"
    using f by (simp add: GetPacket_def Let_def)
  ultimately show ?thesis using r3 by (simp add: WithBodyGzip_def NewPacket_def)
qed

end
